theory Spec2Isabelle
  imports Complex_Main
begin

section \<open>The player connection gateway of the matchmaker extension\<close>

text \<open>
  A shallow embedding of \<^verbatim>\<open>src/matchmaker/extension/gateway.js\<close>: the class
  \<^verbatim>\<open>PlayerConnectionGateway\<close> (the broker: waiting queue, availability scan, assignment,
  gauges) and the class \<^verbatim>\<open>VirtualPlayer\<close> (the session: client leg, worker leg, notices,
  client heartbeat). Every handler of the source runs to completion, so a handler is a
  function from the gateway's state to the gateway's state. \<^verbatim>\<open>Date.now()\<close> is a
  parameter of the handlers that read the clock (milliseconds, an integer): the time
  \<open>now\<close> of one reading, or a \<open>clock\<close> that gives the reading of each call in turn.
  The one behaviour of the \<^verbatim>\<open>ws\<close> library that decides a branch of the code, whether
  its \<^verbatim>\<open>WebSocket\<close> constructor accepts a URL or throws, is a parameter as well.
\<close>

subsection \<open>Data\<close>

text \<open>
  A record of the cirrus server pool, as the gateway reads it. The pool is a JavaScript
  \<^verbatim>\<open>Map\<close> owned by the matchmaker; \<^verbatim>\<open>pool.values()\<close> runs in insertion order, so the
  pool is the list of its records in that order and a record's position stands for its
  object identity. The gateway writes the field \<open>allocated\<close> only (a missing field is
  falsy, hence \<open>False\<close>).
\<close>

record server =
  address :: string
  port :: nat
  numConnectedClients :: int
  allocated :: bool
  lastPingReceived :: int
  ready :: bool

type_synonym sref = nat
type_synonym pid = nat

text \<open>
  The readings of \<^verbatim>\<open>Date.now()\<close> during one handler: \<open>clock k\<close> is what the call
  number \<open>k\<close> returns, counted from 0.
\<close>

type_synonym clock = "nat \<Rightarrow> int"

text \<open>
  Whether \<^verbatim>\<open>new WebSocket(`ws://${address}:${port}?player=${id}`)\<close> accepts its URL,
  from the address and the port of the backend (the player's id is a number and cannot
  spoil the URL). The constructor throws when it does not.
\<close>

type_synonym url_check = "string \<Rightarrow> nat \<Rightarrow> bool"

text \<open>The \<^verbatim>\<open>readyState\<close> of a WebSocket.\<close>

datatype ready_state = CONNECTING | OPEN | CLOSING | CLOSED

text \<open>
  The object that \<^verbatim>\<open>sendNotice\<close> serialises. Its detail is a string or the backend
  record handed to \<^verbatim>\<open>connectStreamer\<close>.
\<close>

datatype detail = Text string | Backend server

record notice =
  type_tag :: string
  queued :: bool
  matched :: bool
  detail :: detail

text \<open>
  The client socket of a player with the property \<^verbatim>\<open>alive\<close> the player adds to it.
  \<open>pings\<close> counts the calls of \<^verbatim>\<open>ws.ping()\<close>, \<open>terminated\<close> records a call of
  \<^verbatim>\<open>ws.terminate()\<close>, \<open>outbox\<close> lists what was handed to \<^verbatim>\<open>ws.send\<close>, oldest first.
\<close>

record client_ws =
  readyState :: ready_state
  alive :: bool
  pings :: nat
  terminated :: bool
  outbox :: "notice list"

text \<open>
  The listeners the gateway registers on a player: \<^verbatim>\<open>() => this.queue.delete(player)\<close>,
  \<^verbatim>\<open>() => isOpen(player.ws) && this.queue.add(player)\<close> and the closure
  \<^verbatim>\<open>freeServer\<close> of one assignment, which holds the server it was created for.
\<close>

datatype listener = QueueDelete | Requeue | FreeServer sref

text \<open>
  A \<^verbatim>\<open>VirtualPlayer\<close>. \<open>stream\<close> is the worker-leg socket, named by the pool record it
  was opened to (\<open>None\<close>: the field is undefined or null). \<open>hb\<close> is the interval timer
  of the client heartbeat with its period in milliseconds (\<open>None\<close> once cleared).
  \<open>on_drop\<close> and \<open>on_disconnect\<close> are the listeners of the events \<^verbatim>\<open>drop\<close> and
  \<^verbatim>\<open>disconnect\<close> in registration order.
\<close>

record player =
  ws :: client_ws
  stream :: "sref option"
  hb :: "nat option"
  on_drop :: "listener list"
  on_disconnect :: "listener list"

text \<open>
  The gateway. \<open>queue\<close> is the \<^verbatim>\<open>Set\<close> of waiting players in insertion order;
  \<open>players\<close> holds every player ever created, at the position of its \<^verbatim>\<open>id\<close> (the
  counter \<^verbatim>\<open>VirtualPlayer.id\<close> starts at 0 and grows by one per player); \<open>clients\<close>
  is \<^verbatim>\<open>wss.clients\<close>, the socket server's set of connected client sockets, each named
  by its player.
\<close>

record gateway =
  debug :: bool
  pool :: "server list"
  queue :: "pid list"
  players :: "player list"
  clients :: "pid list"

subsection \<open>Helpers\<close>

definition isOpen :: "client_ws \<Rightarrow> bool" where
  "isOpen w = (readyState w = OPEN)"

text \<open>\<^verbatim>\<open>Set.prototype.add\<close> on an insertion-ordered set.\<close>

definition set_add :: "pid \<Rightarrow> pid list \<Rightarrow> pid list" where
  "set_add p q = (if p \<in> set q then q else q @ [p])"

text \<open>\<^verbatim>\<open>Set.prototype.delete\<close>.\<close>

definition set_delete :: "pid \<Rightarrow> pid list \<Rightarrow> pid list" where
  "set_delete p q = removeAll p q"

definition map_player :: "pid \<Rightarrow> (player \<Rightarrow> player) \<Rightarrow> gateway \<Rightarrow> gateway" where
  "map_player p f g = g\<lparr>players := (players g)[p := f (players g ! p)]\<rparr>"

definition set_allocated :: "sref \<Rightarrow> bool \<Rightarrow> gateway \<Rightarrow> gateway" where
  "set_allocated s b g = g\<lparr>pool := (pool g)[s := (pool g ! s)\<lparr>allocated := b\<rparr>]\<rparr>"

subsection \<open>The availability scan\<close>

text \<open>The liveness window of \<^verbatim>\<open>nextAvailable\<close>: \<^verbatim>\<open>6e4\<close> milliseconds.\<close>

definition livenessWindow :: int where
  "livenessWindow = 60000"

text \<open>The condition of the \<^verbatim>\<open>if\<close> in the loop of \<^verbatim>\<open>nextAvailable\<close>.\<close>

definition available :: "bool \<Rightarrow> int \<Rightarrow> server \<Rightarrow> bool" where
  "available dbg liveTime s =
     (numConnectedClients s = 0 \<and> \<not> allocated s \<and>
      lastPingReceived s \<ge> liveTime \<and>
      (ready s \<or> dbg))"

text \<open>The loop over \<^verbatim>\<open>this.pool.values()\<close>; \<open>i\<close> is the position of the head.\<close>

fun scan :: "bool \<Rightarrow> int \<Rightarrow> sref \<Rightarrow> server list \<Rightarrow> sref option" where
  "scan dbg liveTime i [] = None"
| "scan dbg liveTime i (s # ss) =
     (if available dbg liveTime s then Some i else scan dbg liveTime (Suc i) ss)"

definition nextAvailable :: "gateway \<Rightarrow> int \<Rightarrow> sref option" where
  "nextAvailable g now = scan (debug g) (now - livenessWindow) 0 (pool g)"

subsection \<open>The player\<close>

definition sendNotice :: "detail \<Rightarrow> player \<Rightarrow> player" where
  "sendNotice d pl =
     pl\<lparr>ws := (ws pl)\<lparr>outbox := outbox (ws pl) @
        [\<lparr>type_tag = ''matchmaker'',
          queued = (stream pl = None),
          matched = (stream pl \<noteq> None),
          detail = d\<rparr>]\<rparr>\<rparr>"

text \<open>The period of the client heartbeat: \<^verbatim>\<open>3e4\<close> milliseconds.\<close>

definition heartbeatInterval :: nat where
  "heartbeatInterval = 30000"

text \<open>
  The constructor of \<^verbatim>\<open>VirtualPlayer\<close> on the client socket \<open>w\<close>: it starts the
  heartbeat timer, sets \<^verbatim>\<open>ws.alive\<close> and sends the first notice. The field
  \<^verbatim>\<open>stream\<close> is not set, so it is undefined.
\<close>

definition newPlayer :: "client_ws \<Rightarrow> player" where
  "newPlayer w =
     sendNotice (Text ''Waiting for available streamer'')
       \<lparr>ws = w\<lparr>alive := True\<rparr>, stream = None, hb = Some heartbeatInterval,
        on_drop = [], on_disconnect = []\<rparr>"



text \<open>
  \<^verbatim>\<open>connectStreamer\<close>: opens the worker leg to the backend (the pool record at \<open>s\<close>)
  and notifies the client with the backend as detail. When the constructor of the socket
  throws, \<^verbatim>\<open>this.stream\<close> is not assigned and no notice is sent: the result is
  \<open>None\<close>.
\<close>

definition connectStreamer :: "url_check \<Rightarrow> server \<Rightarrow> sref \<Rightarrow> player \<Rightarrow> player option" where
  "connectStreamer accepts backend s pl =
     (if accepts (address backend) (port backend)
      then Some (sendNotice (Backend backend) (pl\<lparr>stream := Some s\<rparr>))
      else None)"

subsection \<open>The gateway's handlers\<close>

text \<open>One listener of player \<open>p\<close>, and \<^verbatim>\<open>emit\<close>: the listeners in registration order.\<close>

fun run_listener :: "pid \<Rightarrow> listener \<Rightarrow> gateway \<Rightarrow> gateway" where
  "run_listener p QueueDelete g = g\<lparr>queue := set_delete p (queue g)\<rparr>"
| "run_listener p Requeue g =
     (if isOpen (ws (players g ! p)) then g\<lparr>queue := set_add p (queue g)\<rparr> else g)"
| "run_listener p (FreeServer s) g = set_allocated s False g"

definition emit :: "pid \<Rightarrow> listener list \<Rightarrow> gateway \<Rightarrow> gateway" where
  "emit p ls g = fold (run_listener p) ls g"

text \<open>
  What a handler that can throw leaves behind: the state it returns, or the state it had
  reached when the exception left it.
\<close>

datatype outcome = Returned gateway | Threw gateway

fun state_left :: "outcome \<Rightarrow> gateway" where
  "state_left (Returned g) = g"
| "state_left (Threw g) = g"

text \<open>
  \<^verbatim>\<open>assignPlayer\<close>. The two listeners are registered on the player before
  \<^verbatim>\<open>connectStreamer\<close> is called, so an exception of \<^verbatim>\<open>connectStreamer\<close> leaves the
  player out of the queue, the server allocated and the listeners registered. The listener
  of \<^verbatim>\<open>error\<close> on the new worker-leg socket is the same closure \<^verbatim>\<open>freeServer\<close>; it is
  run by \<open>onStreamerError\<close> below.
\<close>

definition assignPlayer :: "url_check \<Rightarrow> pid \<Rightarrow> sref \<Rightarrow> gateway \<Rightarrow> outcome" where
  "assignPlayer accepts p s g =
     (let g1 = g\<lparr>queue := set_delete p (queue g)\<rparr> in
      if isOpen (ws (players g1 ! p)) then
        let g2 = set_allocated s True g1;
            g3 = map_player p
                   (\<lambda>pl. pl\<lparr>on_drop := on_drop pl @ [Requeue],
                          on_disconnect := on_disconnect pl @ [FreeServer s]\<rparr>) g2
        in (case connectStreamer accepts (pool g3 ! s) s (players g3 ! p) of
              None \<Rightarrow> Threw g3
            | Some pl \<Rightarrow> Returned (map_player p (\<lambda>_. pl) g3))
      else Returned g1)"

text \<open>
  The loop of \<^verbatim>\<open>connectWaitingPlayers\<close> over \<^verbatim>\<open>this.queue.values()\<close>. The body deletes
  only the player it is visiting and adds none, so the iterator visits the players that
  were queued when the loop began, in insertion order; \<open>ps\<close> is the part not yet visited.
  Each visit calls \<^verbatim>\<open>nextAvailable\<close>, which reads the clock: \<open>k\<close> counts the readings.
  An exception of \<^verbatim>\<open>assignPlayer\<close> ends the loop and the handler.
\<close>

fun drain :: "url_check \<Rightarrow> clock \<Rightarrow> nat \<Rightarrow> pid list \<Rightarrow> gateway \<Rightarrow> outcome" where
  "drain accepts clock k [] g = Returned g"
| "drain accepts clock k (p # ps) g =
     (case nextAvailable g (clock k) of
        None \<Rightarrow> Returned g
      | Some s \<Rightarrow>
          (case assignPlayer accepts p s g of
             Threw g' \<Rightarrow> Threw g'
           | Returned g' \<Rightarrow> drain accepts clock (Suc k) ps g'))"

definition connectWaitingPlayers :: "url_check \<Rightarrow> clock \<Rightarrow> gateway \<Rightarrow> outcome" where
  "connectWaitingPlayers accepts clock g =
     (if length (queue g) \<noteq> 0 then drain accepts clock 0 (queue g) g else Returned g)"

text \<open>
  \<^verbatim>\<open>onClientConnection\<close> for a new client socket \<open>w\<close>, which the socket server has
  added to \<^verbatim>\<open>wss.clients\<close> before it emits \<^verbatim>\<open>connection\<close>.
\<close>

definition onClientConnection :: "url_check \<Rightarrow> client_ws \<Rightarrow> clock \<Rightarrow> gateway \<Rightarrow> outcome" where
  "onClientConnection accepts w clock g =
     (let p = length (players g);
          pl = (newPlayer w)\<lparr>on_disconnect := [QueueDelete]\<rparr>;
          g1 = g\<lparr>players := players g @ [pl], clients := set_add p (clients g)\<rparr>
      in connectWaitingPlayers accepts clock (g1\<lparr>queue := set_add p (queue g1)\<rparr>))"

text \<open>\<^verbatim>\<open>handleStreamerClose\<close>, the listener of \<^verbatim>\<open>close\<close> on the worker leg of \<open>p\<close>.\<close>

definition handleStreamerClose :: "pid \<Rightarrow> gateway \<Rightarrow> gateway" where
  "handleStreamerClose p g =
     (let g1 = map_player p (\<lambda>pl. pl\<lparr>stream := None\<rparr>) g;
          g2 = emit p (on_drop (players g1 ! p)) g1
      in map_player p (sendNotice (Text ''Streamer dropped'')) g2)"

text \<open>
  The listener of \<^verbatim>\<open>error\<close> on the worker leg of \<open>p\<close>: \<^verbatim>\<open>freeServer\<close> of the server
  that leg was opened to.
\<close>

definition onStreamerError :: "pid \<Rightarrow> gateway \<Rightarrow> gateway" where
  "onStreamerError p g =
     (case stream (players g ! p) of
        None \<Rightarrow> g
      | Some s \<Rightarrow> run_listener p (FreeServer s) g)"

text \<open>
  The listener of \<^verbatim>\<open>close\<close> on the client socket of \<open>p\<close>: the socket is closed and
  has left \<^verbatim>\<open>wss.clients\<close>; the listener clears the heartbeat timer and calls
  \<^verbatim>\<open>disconnect\<close>, which emits \<^verbatim>\<open>disconnect\<close> and asks both sockets to close (the worker
  leg keeps its handle until its own \<^verbatim>\<open>close\<close> arrives).
\<close>

definition disconnect :: "pid \<Rightarrow> gateway \<Rightarrow> gateway" where
  "disconnect p g = emit p (on_disconnect (players g ! p)) g"

definition onClientClose :: "pid \<Rightarrow> gateway \<Rightarrow> gateway" where
  "onClientClose p g =
     (let g1 = map_player p (\<lambda>pl. pl\<lparr>ws := (ws pl)\<lparr>readyState := CLOSED\<rparr>, hb := None\<rparr>) g;
          g2 = g1\<lparr>clients := set_delete p (clients g1)\<rparr>
      in disconnect p g2)"

subsection \<open>Events\<close>

text \<open>
  The events that reach the gateway, each handled to completion: a client connects; a
  streamer sends data on its matchmaker connection (the listener installed by
  \<^verbatim>\<open>onStreamerConnection\<close> drains the queue); the worker leg of a player closes or
  reports an error; the client leg of a player closes. \<open>ClientClosing\<close> is the client
  socket of a player leaving the state \<^verbatim>\<open>OPEN\<close> before its \<^verbatim>\<open>close\<close> is emitted: the
  peer's close frame has arrived, or the heartbeat has called \<^verbatim>\<open>ws.terminate()\<close>; no
  listener of the gateway runs then, and \<^verbatim>\<open>close\<close> follows as a later event.
  \<open>PoolStatus\<close> and \<open>PoolJoin\<close> are the matchmaker writing the pool: it updates the
  status fields of a record, or adds a record. The heartbeat timer and the pong of a
  client act on the client socket alone; they are \<open>clientHeartbeat\<close> and \<open>onPong\<close>
  above. An event for a socket that does not exist (no such player, no worker leg, a client
  leg already closed) cannot occur and leaves the state as it is. A handler that throws
  leaves the state it had reached; the gateway goes on from there if the process survives
  the exception, so that state counts as reached.
\<close>

datatype event =
    ClientConnection clock
  | StreamerData clock
  | StreamerClose pid
  | StreamerError pid
  | ClientClosing pid
  | ClientClose pid
  | PoolStatus sref int int bool
  | PoolJoin server

definition freshSocket :: client_ws where
  "freshSocket = \<lparr>readyState = OPEN, alive = False, pings = 0, terminated = False, outbox = []\<rparr>"

fun handle :: "url_check \<Rightarrow> event \<Rightarrow> gateway \<Rightarrow> gateway" where
  "handle accepts (ClientConnection clock) g =
     state_left (onClientConnection accepts freshSocket clock g)"
| "handle accepts (StreamerData clock) g = state_left (connectWaitingPlayers accepts clock g)"
| "handle accepts (StreamerClose p) g =
     (if p < length (players g) \<and> stream (players g ! p) \<noteq> None
      then handleStreamerClose p g else g)"
| "handle accepts (StreamerError p) g =
     (if p < length (players g) then onStreamerError p g else g)"
| "handle accepts (ClientClosing p) g =
     (if p < length (players g) \<and> readyState (ws (players g ! p)) = OPEN
      then map_player p (\<lambda>pl. pl\<lparr>ws := (ws pl)\<lparr>readyState := CLOSING\<rparr>\<rparr>) g
      else g)"
| "handle accepts (ClientClose p) g =
     (if p < length (players g) \<and> readyState (ws (players g ! p)) \<noteq> CLOSED
      then onClientClose p g else g)"
| "handle accepts (PoolStatus s n t r) g =
     (if s < length (pool g)
      then g\<lparr>pool := (pool g)[s := (pool g ! s)\<lparr>numConnectedClients := n,
                 lastPingReceived := t, ready := r\<rparr>]\<rparr>
      else g)"
| "handle accepts (PoolJoin srv) g = g\<lparr>pool := pool g @ [srv]\<rparr>"

text \<open>The events of a list, the oldest first.\<close>

definition run :: "url_check \<Rightarrow> event list \<Rightarrow> gateway \<Rightarrow> gateway" where
  "run accepts es g = fold (handle accepts) es g"

text \<open>The state the constructor leaves, for the debug flag and the pool it was given.\<close>

definition initial :: "bool \<Rightarrow> server list \<Rightarrow> gateway" where
  "initial dbg ps = \<lparr>debug = dbg, pool = ps, queue = [], players = [], clients = []\<rparr>"

inductive reachable :: "url_check \<Rightarrow> gateway \<Rightarrow> bool" for accepts :: url_check where
  start: "reachable accepts (initial dbg ps)"
| step: "reachable accepts g \<Longrightarrow> reachable accepts (handle accepts e g)"

subsection \<open>The gauges\<close>

text \<open>The \<^verbatim>\<open>collect\<close> callbacks of the three gauges the constructor registers.\<close>

definition player_queue_count :: "gateway \<Rightarrow> nat" where
  "player_queue_count g = length (queue g)"

definition streamer_available_count :: "gateway \<Rightarrow> nat" where
  "streamer_available_count g =
     length (filter (\<lambda>s. numConnectedClients s = 0 \<and> ready s) (pool g))"

text \<open>
  \<^verbatim>\<open>streamer_demand_ratio\<close>. The division is the division of JavaScript numbers; the
  model computes it exactly, in the rationals.
\<close>

definition streamer_demand_ratio :: "gateway \<Rightarrow> rat" where
  "streamer_demand_ratio g =
     (let players = length (clients g);
          poolSize = length (filter (\<lambda>s. ready s) (pool g))
      in if poolSize > 0 then of_nat players / of_nat poolSize
         else (if players > 0 then of_nat players + 1 else 0))"

text \<open>
  The ratio as the specification words it, from the number of waiting clients and the
  number of ready workers; the clients waiting for a worker are the players in the queue.
\<close>

definition spec_demand_ratio :: "nat \<Rightarrow> nat \<Rightarrow> rat" where
  "spec_demand_ratio waitingClients readyWorkers =
     (if readyWorkers > 0 then of_nat waitingClients / of_nat readyWorkers
      else (if waitingClients > 0 then of_nat waitingClients + 1 else 0))"

definition readyWorkers :: "gateway \<Rightarrow> nat" where
  "readyWorkers g = length (filter (\<lambda>s. ready s) (pool g))"

subsection \<open>The constructor's checks\<close>

text \<open>
  The values an option of the constructor can hold, as far as the checks tell them
  apart, and the classes the checks name. \<open>PlainObject\<close> is an object of no such class
  and without the methods of a metrics adapter. Node's \<^verbatim>\<open>http.Server\<close> extends
  \<^verbatim>\<open>net.Server\<close>, so an http server is an instance of both.
\<close>

datatype jsval =
    Undefined
  | Boolean bool
  | HttpServer
  | NetServer
  | MapObject "server list"
  | MetricsAdapterObject
  | PlainObject

datatype jsclass = Http_Server | Net_Server | Map_class | MetricsAdapter_class

fun instanceof :: "jsval \<Rightarrow> jsclass \<Rightarrow> bool" where
  "instanceof HttpServer Http_Server = True"
| "instanceof HttpServer Net_Server = True"
| "instanceof NetServer Net_Server = True"
| "instanceof (MapObject ps) Map_class = True"
| "instanceof MetricsAdapterObject MetricsAdapter_class = True"
| "instanceof v c = False"

text \<open>The operator \<^verbatim>\<open>!\<close>: a boolean, true on a falsy operand.\<close>

fun js_not :: "jsval \<Rightarrow> jsval" where
  "js_not Undefined = Boolean True"
| "js_not (Boolean b) = Boolean (\<not> b)"
| "js_not v = Boolean False"

record options =
  opt_server :: jsval
  opt_matchmaker :: jsval
  opt_pool :: jsval
  opt_metrics :: jsval

datatype error = Error string | TypeError

text \<open>What the constructor stores on the instance it returns.\<close>

record constructed =
  inst_debug :: bool
  inst_pool :: jsval
  inst_queue :: "pid list"

text \<open>
  The constructor of \<^verbatim>\<open>PlayerConnectionGateway\<close>; \<open>dbg\<close> is
  \<^verbatim>\<open>!!process.env.DEBUG\<close>, whether the environment variable is set to a non-empty
  string. \<^verbatim>\<open>options || {}\<close> makes every field undefined when no
  options are given. \<^verbatim>\<open>!pool instanceof Map\<close> parses as \<^verbatim>\<open>(!pool) instanceof Map\<close>,
  and so does the check of the metrics adapter. After the checks the constructor calls
  \<^verbatim>\<open>metrics.instrumentSocketServer\<close>, which throws a \<^verbatim>\<open>TypeError\<close> on a value
  that has no such method.
\<close>

definition construct :: "bool \<Rightarrow> options option \<Rightarrow> error + constructed" where
  "construct dbg options =
     (let opts = (case options of
                    None \<Rightarrow> \<lparr>opt_server = Undefined, opt_matchmaker = Undefined,
                             opt_pool = Undefined, opt_metrics = Undefined\<rparr>
                  | Some v \<Rightarrow> v)
      in if \<not> instanceof (opt_server opts) Http_Server
           then Inl (Error ''Http server is required for PlayerConnectionGateway'')
         else if \<not> instanceof (opt_matchmaker opts) Net_Server
           then Inl (Error ''Matchmaker server is required for PlayerConnectionGateway'')
         else if instanceof (js_not (opt_pool opts)) Map_class
           then Inl (Error ''A streamer availability pool is required'')
         else if instanceof (js_not (opt_metrics opts)) MetricsAdapter_class
           then Inl (Error ''Metrics adapter instance is required'')
         else if opt_metrics opts \<noteq> MetricsAdapterObject
           then Inl TypeError
         else Inr \<lparr>inst_debug = dbg, inst_pool = opt_pool opts, inst_queue = []\<rparr>)"

subsection \<open>Invariants and example states\<close>

text \<open>
  What the handlers keep true of the listeners of a player: the \<^verbatim>\<open>drop\<close> listeners
  are requeue listeners, and there is one once the player has a worker leg; the
  \<^verbatim>\<open>disconnect\<close> listeners hold the queue deletion of \<^verbatim>\<open>onClientConnection\<close> and no
  requeue listener.
\<close>

definition wf_player :: "player \<Rightarrow> bool" where
  "wf_player pl \<longleftrightarrow>
     set (on_drop pl) \<subseteq> {Requeue} \<and>
     QueueDelete \<in> set (on_disconnect pl) \<and>
     Requeue \<notin> set (on_disconnect pl) \<and>
     (stream pl \<noteq> None \<longrightarrow> Requeue \<in> set (on_drop pl))"

text \<open>
  The terminal state of a player: the \<^verbatim>\<open>close\<close> of its client leg has been handled.
\<close>

definition Disconnected :: "player \<Rightarrow> bool" where
  "Disconnected pl \<longleftrightarrow> readyState (ws pl) = CLOSED"

text \<open>A player of the gateway with no worker-leg handle that is not disconnected.\<close>

definition waiting :: "gateway \<Rightarrow> pid \<Rightarrow> bool" where
  "waiting g p \<longleftrightarrow> p < length (players g) \<and> stream (players g ! p) = None \<and> \<not> Disconnected (players g ! p)"

text \<open>Whether a handler threw.\<close>

fun thrown :: "outcome \<Rightarrow> bool" where
  "thrown (Returned g) = False"
| "thrown (Threw g) = True"

text \<open>
  What \<^verbatim>\<open>assignPlayer\<close> does to a player whose client leg is open: it registers the two
  listeners, and then, unless the socket constructor throws, \<^verbatim>\<open>connectStreamer\<close> sets
  the worker leg and sends the notice.
\<close>

definition prepared :: "sref \<Rightarrow> player \<Rightarrow> player" where
  "prepared s pl =
     pl\<lparr>on_drop := on_drop pl @ [Requeue], on_disconnect := on_disconnect pl @ [FreeServer s]\<rparr>"

definition assigned :: "server \<Rightarrow> sref \<Rightarrow> player \<Rightarrow> player" where
  "assigned b s pl = sendNotice (Backend b) ((prepared s pl)\<lparr>stream := Some s\<rparr>)"

text \<open>The record \<^verbatim>\<open>assignPlayer\<close> hands to \<^verbatim>\<open>connectStreamer\<close>.\<close>

definition backend :: "gateway \<Rightarrow> sref \<Rightarrow> server" where
  "backend g s = pool (set_allocated s True g) ! s"

text \<open>Every player of the gateway is well formed.\<close>

definition all_wf :: "gateway \<Rightarrow> bool" where
  "all_wf g \<longleftrightarrow> (\<forall>p < length (players g). wf_player (players g ! p))"

text \<open>
  The invariant of the queue: no player is queued twice, and every queued player is
  waiting.
\<close>

definition queue_inv :: "gateway \<Rightarrow> bool" where
  "queue_inv g \<longleftrightarrow>
     distinct (queue g) \<and> (\<forall>p \<in> set (queue g). waiting g p) \<and> all_wf g"

text \<open>The socket constructor accepts the URL of every record of the pool.\<close>

definition accepted :: "url_check \<Rightarrow> gateway \<Rightarrow> bool" where
  "accepted u g \<longleftrightarrow> (\<forall>i < length (pool g). u (address (pool g ! i)) (port (pool g ! i)))"

text \<open>Every player with an open client leg and no worker leg is queued.\<close>

definition open_queued :: "gateway \<Rightarrow> bool" where
  "open_queued g \<longleftrightarrow>
     (\<forall>p < length (players g).
        stream (players g ! p) = None \<and> isOpen (ws (players g ! p)) \<longrightarrow> p \<in> set (queue g))"

text \<open>The pool of \<open>h\<close> has the records of the pool of \<open>g\<close>, with their addresses and ports.\<close>

definition same_urls :: "gateway \<Rightarrow> gateway \<Rightarrow> bool" where
  "same_urls g h \<longleftrightarrow>
     length (pool g) \<le> length (pool h) \<and>
     (\<forall>i < length (pool g). address (pool h ! i) = address (pool g ! i) \<and>
                            port (pool h ! i) = port (pool g ! i))"

text \<open>The state in which \<^verbatim>\<open>onClientConnection\<close> starts the drain.\<close>

definition enqueued :: "gateway \<Rightarrow> gateway" where
  "enqueued g =
     g\<lparr>players := players g @ [(newPlayer freshSocket)\<lparr>on_disconnect := [QueueDelete]\<rparr>],
       clients := set_add (length (players g)) (clients g),
       queue := set_add (length (players g)) (queue g)\<rparr>"

text \<open>What \<open>ClientClosing\<close> does to the state when the client socket is open.\<close>

definition closing :: "pid \<Rightarrow> gateway \<Rightarrow> gateway" where
  "closing p g = map_player p (\<lambda>pl. pl\<lparr>ws := (ws pl)\<lparr>readyState := CLOSING\<rparr>\<rparr>) g"

text \<open>
  A check that accepts a non-empty address with a port up to 65535. The example states
  take it for the check of the socket constructor; their one backend is 10.0.0.5:9000.
\<close>

definition usual_check :: url_check where
  "usual_check a prt \<longleftrightarrow> a \<noteq> [] \<and> prt \<le> 65535"

text \<open>A clock that stands at \<open>t\<close> during a handler.\<close>

definition still :: "int \<Rightarrow> clock" where
  "still t k = t"

text \<open>
  A pool of one worker that is ready, free, without clients, and was last pinged at
  time 0.
\<close>

definition boundary_pool :: "server list" where
  "boundary_pool = [\<lparr>address = ''10.0.0.5'', port = 9000, numConnectedClients = 0,
      allocated = False, lastPingReceived = 0, ready = True\<rparr>]"

text \<open>One client connects to a gateway whose pool is empty.\<close>

definition one_waiting :: gateway where
  "one_waiting = run usual_check [ClientConnection (still 0)] (initial False [])"

text \<open>One client connects to a gateway whose pool holds one eligible worker.\<close>

definition one_matched :: gateway where
  "one_matched = run usual_check [ClientConnection (still 0)] (initial False boundary_pool)"

text \<open>Every notice handed to the client socket of a player is consistent.\<close>

definition notices_ok :: "player \<Rightarrow> bool" where
  "notices_ok pl \<longleftrightarrow> (\<forall>n \<in> set (outbox (ws pl)). matched n = (\<not> queued n))"

text \<open>The same for every player of the gateway.\<close>

definition all_notices_ok :: "gateway \<Rightarrow> bool" where
  "all_notices_ok g \<longleftrightarrow> (\<forall>p < length (players g). notices_ok (players g ! p))"

text \<open>
  The invariant of \<^verbatim>\<open>wss.clients\<close>: it holds exactly the players whose client leg
  has not closed.
\<close>

definition clients_inv :: "gateway \<Rightarrow> bool" where
  "clients_inv g \<longleftrightarrow>
     distinct (clients g) \<and>
     (\<forall>p. p \<in> set (clients g) \<longleftrightarrow> p < length (players g) \<and> \<not> Disconnected (players g ! p))"

text \<open>The number of players whose client leg has not closed.\<close>

definition connectedClients :: "gateway \<Rightarrow> nat" where
  "connectedClients g = length (filter (\<lambda>pl. \<not> Disconnected pl) (players g))"

text \<open>A worker that is ready, free, without clients, and was last pinged at time 0.\<close>

definition fresh_worker :: server where
  "fresh_worker = \<lparr>address = ''10.0.0.5'', port = 9000, numConnectedClients = 0,
      allocated = False, lastPingReceived = 0, ready = True\<rparr>"

text \<open>
  Three clients connect while the pool is empty, then one eligible worker joins the pool.
\<close>

definition three_waiting :: gateway where
  "three_waiting =
     run usual_check
       [ClientConnection (still 0), ClientConnection (still 0), ClientConnection (still 0),
        PoolJoin fresh_worker]
       (initial False [])"

text \<open>
  The same, but the client socket of the first player has left the state \<^verbatim>\<open>OPEN\<close> (its
  \<^verbatim>\<open>close\<close> is still to come) when the worker joins.
\<close>

definition head_closing :: gateway where
  "head_closing =
     run usual_check
       [ClientConnection (still 0), ClientConnection (still 0), ClientConnection (still 0),
        ClientClosing 0, PoolJoin fresh_worker]
       (initial False [])"

text \<open>
  One client connects while the pool is empty; its socket leaves the state \<^verbatim>\<open>OPEN\<close>; a
  worker joins and its data drains the queue.
\<close>

definition closing_dropped :: gateway where
  "closing_dropped =
     run usual_check
       [ClientConnection (still 0), ClientClosing 0, PoolJoin fresh_worker,
        StreamerData (still 0)]
       (initial False [])"

text \<open>
  Player 0 is matched to the only worker and its worker leg reports an error, which frees
  the worker; player 1 connects and is matched to it; the client leg of player 0 closes,
  whose \<^verbatim>\<open>disconnect\<close> listener frees the worker again; player 2 connects.
\<close>

definition twice_assigned :: gateway where
  "twice_assigned =
     run usual_check
       [ClientConnection (still 0), StreamerError 0, ClientConnection (still 0), ClientClose 0,
        ClientConnection (still 0)]
       (initial False boundary_pool)"

section \<open>Properties of the handlers\<close>

lemma scan_Some:
  "scan dbg lt i ss = Some j \<Longrightarrow>
     i \<le> j \<and> j - i < length ss \<and> available dbg lt (ss ! (j - i)) \<and>
     (\<forall>k < j - i. \<not> available dbg lt (ss ! k))"
proof (induction ss arbitrary: i)
  case Nil
  then show ?case by simp
next
  case (Cons s ss)
  show ?case
  proof (cases "available dbg lt s")
    case True
    with Cons.prems show ?thesis by simp
  next
    case False
    with Cons.prems have "scan dbg lt (Suc i) ss = Some j" by simp
    from Cons.IH [OF this] have ih: "Suc i \<le> j" "j - Suc i < length ss"
      "available dbg lt (ss ! (j - Suc i))" "\<forall>k < j - Suc i. \<not> available dbg lt (ss ! k)"
      by auto
    from ih(1) have eq: "j - i = Suc (j - Suc i)" by simp
    show ?thesis using ih False unfolding eq
      by (auto simp: nth_Cons split: nat.splits)
  qed
qed

lemma scan_None: "scan dbg lt i ss = None \<longleftrightarrow> (\<forall>s \<in> set ss. \<not> available dbg lt s)"
  by (induction ss arbitrary: i) auto

lemma nextAvailable_Some:
  "nextAvailable g now = Some j \<Longrightarrow>
     j < length (pool g) \<and> available (debug g) (now - livenessWindow) (pool g ! j) \<and>
     (\<forall>k < j. \<not> available (debug g) (now - livenessWindow) (pool g ! k))"
  unfolding nextAvailable_def by (drule scan_Some) simp

lemma nextAvailable_None:
  "nextAvailable g now = None \<longleftrightarrow> (\<forall>s \<in> set (pool g). \<not> available (debug g) (now - livenessWindow) s)"
  unfolding nextAvailable_def by (rule scan_None)

lemma nth_upd:
  "xs[i := v] ! j = (if i = j \<and> i < length xs then v else xs ! j)"
  by (cases "i < length xs") (auto simp: nth_list_update list_update_beyond)

lemma set_allocated_simps:
  "queue (set_allocated s b g) = queue g"
  "players (set_allocated s b g) = players g"
  "clients (set_allocated s b g) = clients g"
  "debug (set_allocated s b g) = debug g"
  "length (pool (set_allocated s b g)) = length (pool g)"
  by (simp_all add: set_allocated_def)

lemma set_allocated_pool_nth:
  "pool (set_allocated s b g) ! w =
     (if w = s \<and> s < length (pool g) then (pool g ! s)\<lparr>allocated := b\<rparr> else pool g ! w)"
  by (auto simp: set_allocated_def nth_upd)

lemma map_player_simps:
  "queue (map_player p f g) = queue g"
  "pool (map_player p f g) = pool g"
  "clients (map_player p f g) = clients g"
  "debug (map_player p f g) = debug g"
  "length (players (map_player p f g)) = length (players g)"
  by (simp_all add: map_player_def)

lemma map_player_nth:
  "players (map_player p f g) ! q =
     (if q = p \<and> p < length (players g) then f (players g ! p) else players g ! q)"
  by (auto simp: map_player_def nth_upd)

lemma run_listener_players: "players (run_listener p l g) = players g"
  by (cases l) (simp_all add: set_allocated_def)

lemma run_listener_debug: "debug (run_listener p l g) = debug g"
  by (cases l) (simp_all add: set_allocated_def)

lemma run_listener_clients: "clients (run_listener p l g) = clients g"
  by (cases l) (simp_all add: set_allocated_def)

lemma emit_players: "players (emit p ls g) = players g"
  unfolding emit_def by (induction ls arbitrary: g) (simp_all add: run_listener_players)

lemma emit_clients: "clients (emit p ls g) = clients g"
  unfolding emit_def by (induction ls arbitrary: g) (simp_all add: run_listener_clients)

lemma emit_debug: "debug (emit p ls g) = debug g"
  unfolding emit_def by (induction ls arbitrary: g) (simp_all add: run_listener_debug)

lemma emit_Nil: "emit p [] g = g" by (simp add: emit_def)

lemma emit_Cons: "emit p (l # ls) g = emit p ls (run_listener p l g)" by (simp add: emit_def)

text \<open>The listeners of \<^verbatim>\<open>drop\<close>.\<close>

lemma emit_requeue_pool:
  "set ls \<subseteq> {Requeue} \<Longrightarrow> pool (emit p ls g) = pool g"
  by (induction ls arbitrary: g) (auto simp: emit_Nil emit_Cons)

lemma emit_requeue_queue:
  "set ls \<subseteq> {Requeue} \<Longrightarrow>
   queue (emit p ls g) = (if ls \<noteq> [] \<and> isOpen (ws (players g ! p)) then set_add p (queue g) else queue g)"
proof (induction ls arbitrary: g)
  case Nil
  then show ?case by (simp add: emit_Nil)
next
  case (Cons l ls)
  then have l: "l = Requeue" and ls: "set ls \<subseteq> {Requeue}" by auto
  have idem: "set_add p (set_add p q) = set_add p q" for q by (simp add: set_add_def)
  show ?case using Cons.IH [OF ls, of "run_listener p l g"]
    by (simp add: emit_Cons l idem)
qed

text \<open>The listeners of \<^verbatim>\<open>disconnect\<close>.\<close>

lemma emit_disconnect_queue:
  "Requeue \<notin> set ls \<Longrightarrow>
   queue (emit p ls g) = (if QueueDelete \<in> set ls then set_delete p (queue g) else queue g)"
proof (induction ls arbitrary: g)
  case Nil
  then show ?case by (simp add: emit_Nil)
next
  case (Cons l ls)
  have idem: "set_delete p (set_delete p q) = set_delete p q" for q by (simp add: set_delete_def)
  from Cons.prems have ls: "Requeue \<notin> set ls" and l: "l \<noteq> Requeue" by auto
  show ?case using Cons.IH [OF ls, of "run_listener p l g"] l
    by (cases l) (auto simp: emit_Cons idem set_allocated_simps)
qed

lemma emit_pool_length: "length (pool (emit p ls g)) = length (pool g)"
  unfolding emit_def 
proof (induction ls arbitrary: g)
  case (Cons l ls) then show ?case by (cases l) (simp_all add: set_allocated_simps)
qed simp

lemma backend_address:
  "address (backend g s) = address (pool g ! s)" "port (backend g s) = port (pool g ! s)"
  by (simp_all add: backend_def set_allocated_pool_nth)

text \<open>The effect of \<^verbatim>\<open>assignPlayer\<close>, field by field.\<close>

lemma assignPlayer_thrown:
  "thrown (assignPlayer u p s g) \<longleftrightarrow>
     isOpen (ws (players g ! p)) \<and> \<not> u (address (pool g ! s)) (port (pool g ! s))"
  by (simp add: assignPlayer_def Let_def connectStreamer_def map_player_simps
      set_allocated_pool_nth)

lemma assignPlayer_simps:
  "queue (state_left (assignPlayer u p s g)) = set_delete p (queue g)"
  "length (players (state_left (assignPlayer u p s g))) = length (players g)"
  "length (pool (state_left (assignPlayer u p s g))) = length (pool g)"
  "clients (state_left (assignPlayer u p s g)) = clients g"
  "debug (state_left (assignPlayer u p s g)) = debug g"
  by (simp_all add: assignPlayer_def Let_def connectStreamer_def map_player_simps
      set_allocated_simps)

lemma assignPlayer_pool:
  "pool (state_left (assignPlayer u p s g)) =
     (if isOpen (ws (players g ! p)) then pool (set_allocated s True g) else pool g)"
  by (simp add: assignPlayer_def Let_def connectStreamer_def map_player_simps
      set_allocated_def)

lemma assignPlayer_players_nth:
  "players (state_left (assignPlayer u p s g)) ! q =
     (if q = p \<and> p < length (players g) \<and> isOpen (ws (players g ! p))
      then (if u (address (pool g ! s)) (port (pool g ! s))
            then assigned (backend g s) s (players g ! p)
            else prepared s (players g ! p))
      else players g ! q)"
  by (auto simp: assignPlayer_def Let_def connectStreamer_def map_player_nth map_player_simps
      set_allocated_def assigned_def prepared_def backend_def nth_upd)

lemma assignPlayer_players_cases:
  "players (state_left (assignPlayer u p s g)) ! q = players g ! q \<or>
   (q = p \<and> p < length (players g) \<and> isOpen (ws (players g ! p)) \<and>
    (players (state_left (assignPlayer u p s g)) ! q = assigned (backend g s) s (players g ! q) \<and>
       u (address (pool g ! s)) (port (pool g ! s)) \<or>
     players (state_left (assignPlayer u p s g)) ! q = prepared s (players g ! q) \<and>
       \<not> u (address (pool g ! s)) (port (pool g ! s))))"
  by (simp add: assignPlayer_players_nth)

text \<open>One visit of the loop, when a server is available.\<close>

lemma drain_visit:
  assumes "nextAvailable g (clock k) = Some s"
  shows "drain u clock k (p # ps) g =
     (if thrown (assignPlayer u p s g) then assignPlayer u p s g
      else drain u clock (Suc k) ps (state_left (assignPlayer u p s g)))"
  using assms by (cases "assignPlayer u p s g") simp_all

lemma drain_stop:
  "nextAvailable g (clock k) = None \<Longrightarrow> drain u clock k (p # ps) g = Returned g"
  by simp

text \<open>
  Induction over the loop: a property of the state kept by every visit holds of the state
  the loop leaves.
\<close>

lemma drain_induct:
  assumes base: "P g"
    and visit: "\<And>p s h t. P h \<Longrightarrow> nextAvailable h t = Some s \<Longrightarrow>
        P (state_left (assignPlayer u p s h))"
  shows "P (state_left (drain u clock k ps g))"
  using base
proof (induction ps arbitrary: g k)
  case Nil
  then show ?case by simp
next
  case (Cons p ps)
  show ?case
  proof (cases "nextAvailable g (clock k)")
    case None
    with Cons.prems show ?thesis by simp
  next
    case (Some s)
    have one: "P (state_left (assignPlayer u p s g))" using Cons.prems Some by (rule visit)
    note eq = drain_visit [where clock = clock and k = k, OF Some, of u p ps]
    show ?thesis
    proof (cases "thrown (assignPlayer u p s g)")
      case True
      with one show ?thesis unfolding eq by simp
    next
      case False
      with Cons.IH [OF one] show ?thesis unfolding eq by simp
    qed
  qed
qed

lemma drain_length_players:
  "length (players (state_left (drain u clock k ps g))) = length (players g)"
  by (rule drain_induct [where P = "\<lambda>h::gateway. length (players h) = length (players g)"])
     (simp_all add: assignPlayer_simps)

lemma drain_length_pool:
  "length (pool (state_left (drain u clock k ps g))) = length (pool g)"
  by (rule drain_induct [where P = "\<lambda>h::gateway. length (pool h) = length (pool g)"])
     (simp_all add: assignPlayer_simps)

lemma drain_clients: "clients (state_left (drain u clock k ps g)) = clients g"
  by (rule drain_induct [where P = "\<lambda>h::gateway. clients h = clients g"])
     (simp_all add: assignPlayer_simps)

lemma drain_debug: "debug (state_left (drain u clock k ps g)) = debug g"
  by (rule drain_induct [where P = "\<lambda>h::gateway. debug h = debug g"])
     (simp_all add: assignPlayer_simps)

lemma drain_players_rel:
  assumes step: "\<And>pl b s. R pl (assigned b s pl)"
    and prep: "\<And>pl s. R pl (prepared s pl)"
    and refl: "\<And>pl. R pl pl"
    and trans: "\<And>a b c. R a b \<Longrightarrow> R b c \<Longrightarrow> R a c"
  shows "R (players g ! q) (players (state_left (drain u clock k ps g)) ! q)"
proof (rule drain_induct [where P = "\<lambda>h::gateway. R (players g ! q) (players h ! q)"])
  show "R (players g ! q) (players g ! q)" by (rule refl)
next
  fix p s t and h :: gateway
  assume a: "R (players g ! q) (players h ! q)"
  have "R (players h ! q) (players (state_left (assignPlayer u p s h)) ! q)"
    using assignPlayer_players_cases [of u p s h q] by (auto simp: refl step prep)
  with a show "R (players g ! q) (players (state_left (assignPlayer u p s h)) ! q)"
    by (rule trans)
qed

lemma prepared_simps:
  "ws (prepared s pl) = ws pl"
  "stream (prepared s pl) = stream pl"
  "hb (prepared s pl) = hb pl"
  "on_drop (prepared s pl) = on_drop pl @ [Requeue]"
  "on_disconnect (prepared s pl) = on_disconnect pl @ [FreeServer s]"
  by (simp_all add: prepared_def)

lemma assigned_simps:
  "ws (assigned b s pl) = (ws pl)\<lparr>outbox := outbox (ws pl) @
      [\<lparr>type_tag = ''matchmaker'', queued = False, matched = True, detail = Backend b\<rparr>]\<rparr>"
  "stream (assigned b s pl) = Some s"
  "hb (assigned b s pl) = hb pl"
  "on_drop (assigned b s pl) = on_drop pl @ [Requeue]"
  "on_disconnect (assigned b s pl) = on_disconnect pl @ [FreeServer s]"
  by (simp_all add: assigned_def prepared_def sendNotice_def)

lemma sendNotice_simps:
  "stream (sendNotice d pl) = stream pl"
  "hb (sendNotice d pl) = hb pl"
  "on_drop (sendNotice d pl) = on_drop pl"
  "on_disconnect (sendNotice d pl) = on_disconnect pl"
  "readyState (ws (sendNotice d pl)) = readyState (ws pl)"
  "alive (ws (sendNotice d pl)) = alive (ws pl)"
  "pings (ws (sendNotice d pl)) = pings (ws pl)"
  "terminated (ws (sendNotice d pl)) = terminated (ws pl)"
  "outbox (ws (sendNotice d pl)) = outbox (ws pl) @
      [\<lparr>type_tag = ''matchmaker'', queued = (stream pl = None), matched = (stream pl \<noteq> None), detail = d\<rparr>]"
  by (simp_all add: sendNotice_def)

lemma drain_readyState:
  "readyState (ws (players (state_left (drain u clock k ps g)) ! q)) =
   readyState (ws (players g ! q))"
  by (rule drain_players_rel [where R = "\<lambda>a b. readyState (ws b) = readyState (ws a)"])
     (simp_all add: assigned_simps prepared_simps)

lemma wf_player_assigned: "wf_player pl \<Longrightarrow> wf_player (assigned b s pl)"
  by (auto simp: wf_player_def assigned_simps)

lemma wf_player_prepared: "wf_player pl \<Longrightarrow> wf_player (prepared s pl)"
  by (auto simp: wf_player_def prepared_simps)

lemma drain_wf_nth:
  "wf_player (players g ! q) \<Longrightarrow> wf_player (players (state_left (drain u clock k ps g)) ! q)"
  using drain_players_rel [where R = "\<lambda>a b. wf_player a \<longrightarrow> wf_player b"
      and g = g and q = q and u = u and clock = clock and k = k and ps = ps]
  by (simp add: wf_player_assigned wf_player_prepared)

lemma drain_all_wf: "all_wf g \<Longrightarrow> all_wf (state_left (drain u clock k ps g))"
  by (simp add: all_wf_def drain_length_players drain_wf_nth)

lemma queue_invI:
  "distinct (queue g) \<Longrightarrow> (\<And>p. p \<in> set (queue g) \<Longrightarrow> waiting g p) \<Longrightarrow> all_wf g \<Longrightarrow>
   queue_inv g"
  by (simp add: queue_inv_def)

lemma queue_inv_pool_only:
  "queue_inv g \<Longrightarrow> queue g' = queue g \<Longrightarrow> players g' = players g \<Longrightarrow> queue_inv g'"
  by (simp add: queue_inv_def waiting_def all_wf_def)

lemma same_urls_refl: "same_urls g g"
  by (simp add: same_urls_def)

lemma same_urls_trans: "same_urls g h \<Longrightarrow> same_urls h k \<Longrightarrow> same_urls g k"
  by (auto simp: same_urls_def)

lemma same_urls_accepted:
  assumes "same_urls g h" "accepted u h"
  shows "accepted u g"
  unfolding accepted_def
proof (intro allI impI)
  fix i assume i: "i < length (pool g)"
  with assms(1) have "i < length (pool h)" "address (pool h ! i) = address (pool g ! i)"
    "port (pool h ! i) = port (pool g ! i)" by (simp_all add: same_urls_def)
  with assms(2) show "u (address (pool g ! i)) (port (pool g ! i))"
    by (auto simp: accepted_def)
qed

lemma same_urls_set_allocated: "same_urls g (set_allocated s b g)"
  by (simp add: same_urls_def set_allocated_simps set_allocated_pool_nth)

lemma accepted_set_allocated: "accepted u g \<Longrightarrow> accepted u (set_allocated s b g)"
  by (simp add: accepted_def set_allocated_simps set_allocated_pool_nth)

lemma same_urls_pool_eq: "pool h = pool g \<Longrightarrow> same_urls g h"
  by (simp add: same_urls_def)

lemma assignPlayer_same_urls: "same_urls g (state_left (assignPlayer u p s g))"
proof (cases "isOpen (ws (players g ! p))")
  case True
  then have "pool (state_left (assignPlayer u p s g)) = pool (set_allocated s True g)"
    by (simp add: assignPlayer_pool)
  with same_urls_set_allocated [of g s True] show ?thesis by (simp add: same_urls_def)
next
  case False
  then have "pool (state_left (assignPlayer u p s g)) = pool g" by (simp add: assignPlayer_pool)
  then show ?thesis by (rule same_urls_pool_eq)
qed

lemma assignPlayer_accepted:
  "accepted u g \<Longrightarrow> accepted u (state_left (assignPlayer u p s g))"
  by (simp add: accepted_def assignPlayer_pool set_allocated_simps set_allocated_pool_nth)

lemma drain_same_urls: "same_urls g (state_left (drain u clock k ps g))"
proof (rule drain_induct [where P = "\<lambda>h::gateway. same_urls g h"])
  show "same_urls g g" by (rule same_urls_refl)
next
  fix p s t and h :: gateway
  assume "same_urls g h"
  then show "same_urls g (state_left (assignPlayer u p s h))"
    using assignPlayer_same_urls by (rule same_urls_trans)
qed

lemma assignPlayer_all_wf: "all_wf g \<Longrightarrow> all_wf (state_left (assignPlayer u p s g))"
  unfolding all_wf_def
proof (intro allI impI)
  fix q
  assume wf: "\<forall>p < length (players g). wf_player (players g ! p)"
    and q: "q < length (players (state_left (assignPlayer u p s g)))"
  then have "wf_player (players g ! q)" by (simp add: assignPlayer_simps)
  with assignPlayer_players_cases [of u p s g q]
  show "wf_player (players (state_left (assignPlayer u p s g)) ! q)"
    by (auto simp: wf_player_assigned wf_player_prepared)
qed

lemma assignPlayer_inv:
  assumes inv: "queue_inv g"
  shows "queue_inv (state_left (assignPlayer u p s g))"
proof (rule queue_invI)
  let ?g' = "state_left (assignPlayer u p s g)"
  from inv have d: "distinct (queue g)" and q: "\<And>x. x \<in> set (queue g) \<Longrightarrow> waiting g x"
    and wf: "all_wf g" by (auto simp: queue_inv_def)
  show "distinct (queue ?g')"
    using d by (simp add: assignPlayer_simps set_delete_def distinct_removeAll)
  show "all_wf ?g'" using wf by (rule assignPlayer_all_wf)
  fix x
  assume "x \<in> set (queue ?g')"
  then have xp: "x \<noteq> p" and xq: "x \<in> set (queue g)"
    by (auto simp: assignPlayer_simps set_delete_def)
  from xp have "players ?g' ! x = players g ! x" by (simp add: assignPlayer_players_nth)
  with q [OF xq] show "waiting ?g' x" by (simp add: waiting_def assignPlayer_simps)
qed

lemma drain_inv: "queue_inv g \<Longrightarrow> queue_inv (state_left (drain u clock k ps g))"
  by (rule drain_induct [where P = queue_inv]) (simp_all add: assignPlayer_inv)

lemma connectWaitingPlayers_inv:
  "queue_inv g \<Longrightarrow> queue_inv (state_left (connectWaitingPlayers u clock g))"
  by (simp add: connectWaitingPlayers_def drain_inv)

lemma available_in_pool:
  "nextAvailable g t = Some s \<Longrightarrow> s < length (pool g) \<and> \<not> allocated (pool g ! s)"
  by (drule nextAvailable_Some) (simp add: available_def)

lemma assignPlayer_open_queued:
  assumes oq: "open_queued g" and ok: "u (address (pool g ! s)) (port (pool g ! s))"
  shows "open_queued (state_left (assignPlayer u p s g))"
  unfolding open_queued_def
proof (intro allI impI)
  let ?g' = "state_left (assignPlayer u p s g)"
  fix x
  assume x: "x < length (players ?g')"
    and w: "stream (players ?g' ! x) = None \<and> isOpen (ws (players ?g' ! x))"
  from x have xl: "x < length (players g)" by (simp add: assignPlayer_simps)
  have xp: "x \<noteq> p"
  proof
    assume e: "x = p"
    show False
    proof (cases "isOpen (ws (players g ! p))")
      case True
      with e xl ok have "players ?g' ! x = assigned (backend g s) s (players g ! p)"
        by (simp add: assignPlayer_players_nth)
      with w show False by (simp add: assigned_simps)
    next
      case False
      with e have "players ?g' ! x = players g ! p" by (simp add: assignPlayer_players_nth)
      with w False show False by simp
    qed
  qed
  then have "players ?g' ! x = players g ! x" by (simp add: assignPlayer_players_nth)
  with xp have same: "players ?g' ! x = players g ! x \<and> x \<noteq> p" by simp
  with w oq xl have "x \<in> set (queue g)" by (simp add: open_queued_def)
  with same show "x \<in> set (queue ?g')" by (simp add: assignPlayer_simps set_delete_def)
qed

lemma drain_open_queued:
  assumes "accepted u g" "open_queued g"
  shows "open_queued (state_left (drain u clock k ps g))"
proof -
  have "accepted u (state_left (drain u clock k ps g)) \<and>
        open_queued (state_left (drain u clock k ps g))"
  proof (rule drain_induct [where P = "\<lambda>h::gateway. accepted u h \<and> open_queued h"])
    show "accepted u g \<and> open_queued g" using assms by simp
  next
    fix p s t and h :: gateway
    assume h: "accepted u h \<and> open_queued h" and s: "nextAvailable h t = Some s"
    from available_in_pool [OF s] h have "u (address (pool h ! s)) (port (pool h ! s))"
      by (simp add: accepted_def)
    with h show "accepted u (state_left (assignPlayer u p s h)) \<and>
          open_queued (state_left (assignPlayer u p s h))"
      by (simp add: assignPlayer_accepted assignPlayer_open_queued)
  qed
  then show ?thesis by simp
qed

lemma drain_returns:
  assumes "accepted u g"
  shows "\<not> thrown (drain u clock k ps g)"
  using assms
proof (induction ps arbitrary: g k)
  case Nil
  show ?case by simp
next
  case (Cons p ps)
  show ?case
  proof (cases "nextAvailable g (clock k)")
    case None
    then show ?thesis by simp
  next
    case (Some s)
    from available_in_pool [OF Some] Cons.prems
    have nt: "\<not> thrown (assignPlayer u p s g)"
      by (simp add: assignPlayer_thrown accepted_def)
    have "accepted u (state_left (assignPlayer u p s g))"
      using Cons.prems by (rule assignPlayer_accepted)
    from Cons.IH [OF this] nt show ?thesis
      unfolding drain_visit [where clock = clock and k = k, OF Some] by simp
  qed
qed

lemma onClientConnection_enqueued:
  "onClientConnection u freshSocket clock g = connectWaitingPlayers u clock (enqueued g)"
  by (simp add: onClientConnection_def enqueued_def Let_def)

lemma handle_ClientClosing:
  "handle u (ClientClosing p) g =
     (if p < length (players g) \<and> readyState (ws (players g ! p)) = OPEN
      then closing p g else g)"
  by (simp add: closing_def)

lemma enqueued_simps:
  "pool (enqueued g) = pool g"
  "debug (enqueued g) = debug g"
  "length (players (enqueued g)) = Suc (length (players g))"
  "q < length (players g) \<Longrightarrow> players (enqueued g) ! q = players g ! q"
  "stream (players (enqueued g) ! length (players g)) = None"
  "readyState (ws (players (enqueued g) ! length (players g))) = OPEN"
  "clients (enqueued g) = set_add (length (players g)) (clients g)"
  "queue (enqueued g) = set_add (length (players g)) (queue g)"
  by (simp_all add: enqueued_def nth_append newPlayer_def sendNotice_simps freshSocket_def)

lemma closing_simps:
  "pool (closing p g) = pool g"
  "debug (closing p g) = debug g"
  "queue (closing p g) = queue g"
  "clients (closing p g) = clients g"
  "length (players (closing p g)) = length (players g)"
  "players (closing p g) ! q =
     (if q = p \<and> p < length (players g)
      then (players g ! p)\<lparr>ws := (ws (players g ! p))\<lparr>readyState := CLOSING\<rparr>\<rparr>
      else players g ! q)"
  by (simp_all add: closing_def map_player_simps map_player_nth)

lemma connectWaitingPlayers_simps:
  "length (players (state_left (connectWaitingPlayers u clock g))) = length (players g)"
  "length (pool (state_left (connectWaitingPlayers u clock g))) = length (pool g)"
  "clients (state_left (connectWaitingPlayers u clock g)) = clients g"
  "debug (state_left (connectWaitingPlayers u clock g)) = debug g"
  "readyState (ws (players (state_left (connectWaitingPlayers u clock g)) ! q)) =
     readyState (ws (players g ! q))"
  by (simp_all add: connectWaitingPlayers_def drain_length_players drain_length_pool
      drain_clients drain_debug drain_readyState)

lemma wf_newPlayer:
  "wf_player ((newPlayer freshSocket)\<lparr>on_disconnect := [QueueDelete]\<rparr>)"
  by (simp add: wf_player_def newPlayer_def sendNotice_simps)

lemma enqueued_inv:
  assumes inv: "queue_inv g"
  shows "queue_inv (enqueued g)"
proof (rule queue_invI)
  let ?p = "length (players g)"
  from inv have d: "distinct (queue g)" and q: "\<And>x. x \<in> set (queue g) \<Longrightarrow> waiting g x"
    and wf: "all_wf g" by (auto simp: queue_inv_def)
  have pn: "?p \<notin> set (queue g)" using q [of ?p] by (auto simp: waiting_def)
  then have qeq: "queue (enqueued g) = queue g @ [?p]" by (simp add: enqueued_simps set_add_def)
  show "distinct (queue (enqueued g))" using d pn by (simp add: qeq)
  show "all_wf (enqueued g)" using wf wf_newPlayer
    by (auto simp: all_wf_def enqueued_def nth_append less_Suc_eq)
  fix x
  assume "x \<in> set (queue (enqueued g))"
  then have "x = ?p \<or> x \<in> set (queue g)" by (auto simp: qeq)
  then show "waiting (enqueued g) x"
  proof
    assume "x = ?p"
    then show ?thesis by (simp add: waiting_def enqueued_simps Disconnected_def)
  next
    assume "x \<in> set (queue g)"
    from q [OF this] show ?thesis by (simp add: waiting_def enqueued_simps)
  qed
qed

lemma enqueued_open_queued:
  assumes "open_queued g"
  shows "open_queued (enqueued g)"
  unfolding open_queued_def
proof (intro allI impI)
  fix x
  assume x: "x < length (players (enqueued g))"
    and w: "stream (players (enqueued g) ! x) = None \<and> isOpen (ws (players (enqueued g) ! x))"
  show "x \<in> set (queue (enqueued g))"
  proof (cases "x = length (players g)")
    case True
    then show ?thesis by (simp add: enqueued_simps set_add_def)
  next
    case False
    with x have xl: "x < length (players g)" by (simp add: enqueued_simps)
    with w assms have "x \<in> set (queue g)" by (simp add: enqueued_simps open_queued_def)
    then show ?thesis by (simp add: enqueued_simps set_add_def)
  qed
qed

lemma handleStreamerClose_simps:
  assumes "set (on_drop (players g ! p)) \<subseteq> {Requeue}" "p < length (players g)"
  shows "pool (handleStreamerClose p g) = pool g"
    and "queue (handleStreamerClose p g) =
       (if on_drop (players g ! p) \<noteq> [] \<and> isOpen (ws (players g ! p))
        then set_add p (queue g) else queue g)"
  using assms
  by (simp_all add: handleStreamerClose_def Let_def map_player_simps map_player_nth
      emit_requeue_pool emit_requeue_queue emit_players)

lemma handleStreamerClose_players:
  "length (players (handleStreamerClose p g)) = length (players g)"
  "players (handleStreamerClose p g) ! q =
     (if q = p \<and> p < length (players g)
      then sendNotice (Text ''Streamer dropped'') ((players g ! p)\<lparr>stream := None\<rparr>)
      else players g ! q)"
  "clients (handleStreamerClose p g) = clients g"
  "debug (handleStreamerClose p g) = debug g"
  by (simp_all add: handleStreamerClose_def Let_def map_player_simps map_player_nth
      emit_players emit_clients emit_debug)

lemma handleStreamerClose_inv:
  assumes inv: "queue_inv g" and plt: "p < length (players g)"
    and st: "stream (players g ! p) \<noteq> None"
  shows "queue_inv (handleStreamerClose p g)"
proof (rule queue_invI)
  let ?g' = "handleStreamerClose p g"
  from inv have d: "distinct (queue g)" and q: "\<And>x. x \<in> set (queue g) \<Longrightarrow> waiting g x"
    and wf: "all_wf g" by (auto simp: queue_inv_def)
  from wf plt have wfp: "wf_player (players g ! p)" by (simp add: all_wf_def)
  then have sub: "set (on_drop (players g ! p)) \<subseteq> {Requeue}"
    and ne: "on_drop (players g ! p) \<noteq> []"
    using st by (auto simp: wf_player_def)
  have qq: "queue ?g' = (if isOpen (ws (players g ! p)) then set_add p (queue g) else queue g)"
    using handleStreamerClose_simps(2) [OF sub plt] ne by simp
  have pn: "p \<notin> set (queue g)" using q [of p] st by (auto simp: waiting_def)
  show "distinct (queue ?g')" using d pn by (simp add: qq set_add_def)
  show "all_wf ?g'" using wf
    by (auto simp: all_wf_def handleStreamerClose_players wf_player_def sendNotice_simps)
  fix x
  assume xin: "x \<in> set (queue ?g')"
  show "waiting ?g' x"
  proof (cases "x = p")
    case True
    with xin pn have "isOpen (ws (players g ! p))" by (auto simp: qq split: if_splits)
    with True plt show ?thesis
      by (simp add: waiting_def handleStreamerClose_players sendNotice_simps
          Disconnected_def isOpen_def)
  next
    case False
    with xin have "x \<in> set (queue g)" by (auto simp: qq set_add_def split: if_splits)
    from q [OF this] False show ?thesis
      by (simp add: waiting_def handleStreamerClose_players)
  qed
qed

lemma handleStreamerClose_open_queued:
  assumes inv: "queue_inv g" and oq: "open_queued g" and plt: "p < length (players g)"
    and st: "stream (players g ! p) \<noteq> None"
  shows "open_queued (handleStreamerClose p g)"
  unfolding open_queued_def
proof (intro allI impI)
  let ?g' = "handleStreamerClose p g"
  from inv have wf: "all_wf g" by (simp add: queue_inv_def)
  from wf plt have wfp: "wf_player (players g ! p)" by (simp add: all_wf_def)
  then have sub: "set (on_drop (players g ! p)) \<subseteq> {Requeue}"
    and ne: "on_drop (players g ! p) \<noteq> []"
    using st by (auto simp: wf_player_def)
  have qq: "queue ?g' = (if isOpen (ws (players g ! p)) then set_add p (queue g) else queue g)"
    using handleStreamerClose_simps(2) [OF sub plt] ne by simp
  fix x
  assume x: "x < length (players ?g')"
    and w: "stream (players ?g' ! x) = None \<and> isOpen (ws (players ?g' ! x))"
  show "x \<in> set (queue ?g')"
  proof (cases "x = p")
    case True
    with w plt have "isOpen (ws (players g ! p))"
      by (simp add: handleStreamerClose_players sendNotice_simps isOpen_def)
    with True show ?thesis by (simp add: qq set_add_def)
  next
    case False
    with x w oq have "x \<in> set (queue g)"
      by (simp add: handleStreamerClose_players open_queued_def)
    then show ?thesis by (simp add: qq set_add_def)
  qed
qed

lemma onStreamerError_simps:
  "queue (onStreamerError p g) = queue g"
  "players (onStreamerError p g) = players g"
  "clients (onStreamerError p g) = clients g"
  "debug (onStreamerError p g) = debug g"
  "length (pool (onStreamerError p g)) = length (pool g)"
  by (simp_all add: onStreamerError_def set_allocated_simps split: option.splits)

lemma onClientClose_players:
  "length (players (onClientClose p g)) = length (players g)"
  "players (onClientClose p g) ! q =
     (if q = p \<and> p < length (players g)
      then (players g ! p)\<lparr>ws := (ws (players g ! p))\<lparr>readyState := CLOSED\<rparr>, hb := None\<rparr>
      else players g ! q)"
  "clients (onClientClose p g) = set_delete p (clients g)"
  "debug (onClientClose p g) = debug g"
  "length (pool (onClientClose p g)) = length (pool g)"
  by (simp_all add: onClientClose_def disconnect_def Let_def emit_players emit_clients emit_debug
      emit_pool_length map_player_simps map_player_nth)

lemma onClientClose_queue:
  assumes "wf_player (players g ! p)" "p < length (players g)"
  shows "queue (onClientClose p g) = set_delete p (queue g)"
  using assms
  by (simp add: onClientClose_def disconnect_def Let_def emit_disconnect_queue map_player_simps
      map_player_nth wf_player_def)

lemma onClientClose_inv:
  assumes inv: "queue_inv g" and plt: "p < length (players g)"
  shows "queue_inv (onClientClose p g)"
proof (rule queue_invI)
  let ?g' = "onClientClose p g"
  from inv have d: "distinct (queue g)" and q: "\<And>x. x \<in> set (queue g) \<Longrightarrow> waiting g x"
    and wf: "all_wf g" by (auto simp: queue_inv_def)
  from wf plt have wfp: "wf_player (players g ! p)" by (simp add: all_wf_def)
  note qq = onClientClose_queue [OF wfp plt]
  show "distinct (queue ?g')" using d by (simp add: qq set_delete_def distinct_removeAll)
  show "all_wf ?g'" using wf
    by (auto simp: all_wf_def onClientClose_players wf_player_def)
  fix x
  assume "x \<in> set (queue ?g')"
  then have "x \<noteq> p" "x \<in> set (queue g)" by (auto simp: qq set_delete_def)
  with q [of x] show "waiting ?g' x"
    by (simp add: waiting_def onClientClose_players)
qed

lemma onClientClose_open_queued:
  assumes inv: "queue_inv g" and oq: "open_queued g" and plt: "p < length (players g)"
  shows "open_queued (onClientClose p g)"
  unfolding open_queued_def
proof (intro allI impI)
  let ?g' = "onClientClose p g"
  from inv plt have wfp: "wf_player (players g ! p)" by (simp add: queue_inv_def all_wf_def)
  note qq = onClientClose_queue [OF wfp plt]
  fix x
  assume x: "x < length (players ?g')"
    and w: "stream (players ?g' ! x) = None \<and> isOpen (ws (players ?g' ! x))"
  from w plt have xp: "x \<noteq> p" by (auto simp: onClientClose_players isOpen_def)
  with x w oq have "x \<in> set (queue g)" by (simp add: onClientClose_players open_queued_def)
  with xp show "x \<in> set (queue ?g')" by (simp add: qq set_delete_def)
qed

lemma closing_inv:
  assumes inv: "queue_inv g"
  shows "queue_inv (closing p g)"
proof (rule queue_invI)
  from inv have d: "distinct (queue g)" and q: "\<And>x. x \<in> set (queue g) \<Longrightarrow> waiting g x"
    and wf: "all_wf g" by (auto simp: queue_inv_def)
  show "distinct (queue (closing p g))" using d by (simp add: closing_simps)
  show "all_wf (closing p g)" using wf by (auto simp: all_wf_def closing_simps wf_player_def)
  fix x
  assume "x \<in> set (queue (closing p g))"
  then have "waiting g x" using q by (simp add: closing_simps)
  then show "waiting (closing p g) x"
    by (auto simp: waiting_def closing_simps Disconnected_def)
qed

lemma closing_open_queued:
  assumes "open_queued g"
  shows "open_queued (closing p g)"
  using assms by (auto simp: open_queued_def closing_simps isOpen_def split: if_splits)

lemma run_listener_same_urls: "same_urls g (run_listener p l g)"
  by (cases l) (simp_all add: same_urls_refl same_urls_set_allocated same_urls_pool_eq)

lemma emit_same_urls: "same_urls g (emit p ls g)"
proof (induction ls arbitrary: g)
  case Nil
  show ?case by (simp add: emit_Nil same_urls_refl)
next
  case (Cons l ls)
  from run_listener_same_urls Cons.IH show ?case
    unfolding emit_Cons by (rule same_urls_trans)
qed

lemma connectWaitingPlayers_same_urls:
  "same_urls g (state_left (connectWaitingPlayers u clock g))"
  by (simp add: connectWaitingPlayers_def drain_same_urls same_urls_refl)

lemma handle_same_urls: "same_urls g (handle u e g)"
proof (cases e)
  case (ClientConnection clock)
  have "same_urls g (enqueued g)" by (rule same_urls_pool_eq) (simp add: enqueued_simps)
  then show ?thesis using connectWaitingPlayers_same_urls
    unfolding ClientConnection handle.simps onClientConnection_enqueued
    by (rule same_urls_trans)
next
  case (StreamerData clock)
  show ?thesis unfolding StreamerData handle.simps by (rule connectWaitingPlayers_same_urls)
next
  case (StreamerClose p)
  have "same_urls g (handleStreamerClose p g)"
  proof -
    have "pool (handleStreamerClose p g) =
        pool (emit p (on_drop (players (map_player p (\<lambda>pl. pl\<lparr>stream := None\<rparr>) g) ! p))
                (map_player p (\<lambda>pl. pl\<lparr>stream := None\<rparr>) g))"
      by (simp add: handleStreamerClose_def Let_def map_player_simps)
    moreover have "same_urls (map_player p (\<lambda>pl. pl\<lparr>stream := None\<rparr>) g)
        (emit p (on_drop (players (map_player p (\<lambda>pl. pl\<lparr>stream := None\<rparr>) g) ! p))
                (map_player p (\<lambda>pl. pl\<lparr>stream := None\<rparr>) g))"
      by (rule emit_same_urls)
    ultimately show ?thesis by (simp add: same_urls_def map_player_simps)
  qed
  then show ?thesis by (simp add: StreamerClose same_urls_refl)
next
  case (StreamerError p)
  have "same_urls g (onStreamerError p g)"
    by (simp add: onStreamerError_def same_urls_refl same_urls_set_allocated split: option.splits)
  then show ?thesis by (simp add: StreamerError same_urls_refl)
next
  case (ClientClosing p)
  show ?thesis
    by (simp add: ClientClosing same_urls_def map_player_simps)
next
  case (ClientClose p)
  have "same_urls g (onClientClose p g)"
  proof -
    let ?g2 = "(map_player p (\<lambda>pl. pl\<lparr>ws := (ws pl)\<lparr>readyState := CLOSED\<rparr>, hb := None\<rparr>) g)
        \<lparr>clients := set_delete p (clients g)\<rparr>"
    have "onClientClose p g = emit p (on_disconnect (players ?g2 ! p)) ?g2"
      by (simp add: onClientClose_def disconnect_def Let_def map_player_simps)
    moreover have "same_urls ?g2 (emit p (on_disconnect (players ?g2 ! p)) ?g2)"
      by (rule emit_same_urls)
    ultimately show ?thesis by (simp add: same_urls_def map_player_simps)
  qed
  then show ?thesis by (simp add: ClientClose same_urls_refl)
next
  case (PoolStatus s n t r)
  show ?thesis by (simp add: PoolStatus same_urls_def nth_upd)
next
  case (PoolJoin srv)
  show ?thesis by (simp add: PoolJoin same_urls_def nth_append)
qed

lemma handle_inv: "queue_inv g \<Longrightarrow> queue_inv (handle u e g)"
proof (cases e)
  case (ClientConnection clock)
  assume "queue_inv g"
  then have "queue_inv (enqueued g)" by (rule enqueued_inv)
  then show ?thesis unfolding ClientConnection handle.simps onClientConnection_enqueued
    by (rule connectWaitingPlayers_inv)
next
  case (StreamerData clock)
  assume "queue_inv g"
  then show ?thesis unfolding StreamerData handle.simps by (rule connectWaitingPlayers_inv)
next
  case (StreamerClose p)
  assume "queue_inv g"
  then show ?thesis unfolding StreamerClose by (simp add: handleStreamerClose_inv)
next
  case (StreamerError p)
  assume "queue_inv g"
  then show ?thesis unfolding StreamerError
    by (auto intro: queue_inv_pool_only simp: onStreamerError_simps)
next
  case (ClientClosing p)
  assume "queue_inv g"
  then show ?thesis unfolding ClientClosing handle_ClientClosing by (simp add: closing_inv)
next
  case (ClientClose p)
  assume "queue_inv g"
  then show ?thesis unfolding ClientClose by (simp add: onClientClose_inv)
next
  case (PoolStatus s n t r)
  assume "queue_inv g"
  then show ?thesis unfolding PoolStatus by (auto intro: queue_inv_pool_only)
next
  case (PoolJoin srv)
  assume "queue_inv g"
  then show ?thesis unfolding PoolJoin by (auto intro: queue_inv_pool_only)
qed

lemma open_queued_pool_only:
  "open_queued g \<Longrightarrow> queue g' = queue g \<Longrightarrow> players g' = players g \<Longrightarrow> open_queued g'"
  by (simp add: open_queued_def)

lemma connectWaitingPlayers_open_queued:
  "accepted u g \<Longrightarrow> open_queued g \<Longrightarrow>
   open_queued (state_left (connectWaitingPlayers u clock g))"
  by (simp add: connectWaitingPlayers_def drain_open_queued)

lemma handle_open_queued:
  assumes inv: "queue_inv g" and acc: "accepted u g" and oq: "open_queued g"
  shows "open_queued (handle u e g)"
proof (cases e)
  case (ClientConnection clock)
  have "accepted u (enqueued g)" using acc by (simp add: accepted_def enqueued_simps)
  moreover have "open_queued (enqueued g)" using oq by (rule enqueued_open_queued)
  ultimately show ?thesis unfolding ClientConnection handle.simps onClientConnection_enqueued
    by (rule connectWaitingPlayers_open_queued)
next
  case (StreamerData clock)
  from acc oq show ?thesis unfolding StreamerData handle.simps
    by (rule connectWaitingPlayers_open_queued)
next
  case (StreamerClose p)
  with inv oq show ?thesis by (simp add: handleStreamerClose_open_queued)
next
  case (StreamerError p)
  with oq show ?thesis by (auto intro: open_queued_pool_only simp: onStreamerError_simps)
next
  case (ClientClosing p)
  with oq show ?thesis unfolding ClientClosing handle_ClientClosing
    by (simp add: closing_open_queued)
next
  case (ClientClose p)
  with inv oq show ?thesis by (simp add: onClientClose_open_queued)
next
  case (PoolStatus s n t r)
  with oq show ?thesis by (auto intro: open_queued_pool_only)
next
  case (PoolJoin srv)
  with oq show ?thesis by (auto intro: open_queued_pool_only)
qed

lemma initial_inv: "queue_inv (initial dbg ps)"
  by (simp add: queue_inv_def initial_def all_wf_def)

lemma reachable_inv: "reachable u g \<Longrightarrow> queue_inv g"
  by (induction rule: reachable.induct) (simp_all add: initial_inv handle_inv)

lemma reachable_open_queued: "reachable u g \<Longrightarrow> accepted u g \<Longrightarrow> open_queued g"
proof (induction rule: reachable.induct)
  case (start dbg ps)
  show ?case by (simp add: open_queued_def initial_def)
next
  case (step g e)
  from step.prems have acc: "accepted u g" using handle_same_urls by (rule same_urls_accepted [rotated])
  from step.hyps have "queue_inv g" by (rule reachable_inv)
  then show ?case using acc step.IH [OF acc] by (rule handle_open_queued)
qed

lemma reachable_run: "reachable u g \<Longrightarrow> reachable u (run u es g)"
  unfolding run_def by (induction es arbitrary: g) (simp_all add: reachable.step)

lemmas eval_defs = run_def initial_def boundary_pool_def onClientConnection_def
  connectWaitingPlayers_def nextAvailable_def available_def livenessWindow_def
  assignPlayer_def map_player_def set_allocated_def connectStreamer_def sendNotice_def
  newPlayer_def freshSocket_def heartbeatInterval_def set_add_def set_delete_def isOpen_def
  handleStreamerClose_def onStreamerError_def onClientClose_def disconnect_def emit_def
  usual_check_def still_def Let_def

lemma one_waiting_eq:
  "one_waiting = \<lparr>debug = False, pool = [], queue = [0],
     players = [\<lparr>ws = \<lparr>readyState = OPEN, alive = True, pings = 0, terminated = False,
        outbox = [\<lparr>type_tag = ''matchmaker'', queued = True, matched = False,
                   detail = Text ''Waiting for available streamer''\<rparr>]\<rparr>,
        stream = None, hb = Some 30000, on_drop = [], on_disconnect = [QueueDelete]\<rparr>],
     clients = [0]\<rparr>"
  by (simp add: one_waiting_def eval_defs)

lemma one_matched_eq:
  "one_matched = \<lparr>debug = False,
     pool = [\<lparr>address = ''10.0.0.5'', port = 9000, numConnectedClients = 0,
        allocated = True, lastPingReceived = 0, ready = True\<rparr>],
     queue = [],
     players = [\<lparr>ws = \<lparr>readyState = OPEN, alive = True, pings = 0, terminated = False,
        outbox = [\<lparr>type_tag = ''matchmaker'', queued = True, matched = False,
                   detail = Text ''Waiting for available streamer''\<rparr>,
                  \<lparr>type_tag = ''matchmaker'', queued = False, matched = True,
                   detail = Backend \<lparr>address = ''10.0.0.5'', port = 9000,
                     numConnectedClients = 0, allocated = True, lastPingReceived = 0,
                     ready = True\<rparr>\<rparr>]\<rparr>,
        stream = Some 0, hb = Some 30000, on_drop = [Requeue],
        on_disconnect = [QueueDelete, FreeServer 0]\<rparr>],
     clients = [0]\<rparr>"
  by (simp add: one_matched_def eval_defs)

lemma one_matched_stream: "stream (players one_matched ! 0) = Some 0"
  by (simp add: one_matched_eq)

lemma notices_ok_sendNotice: "notices_ok pl \<Longrightarrow> notices_ok (sendNotice d pl)"
  by (simp add: notices_ok_def sendNotice_simps)

lemma notices_ok_assigned: "notices_ok pl \<Longrightarrow> notices_ok (assigned b s pl)"
  by (simp add: notices_ok_def assigned_simps)

lemma notices_ok_prepared: "notices_ok pl \<Longrightarrow> notices_ok (prepared s pl)"
  by (simp add: notices_ok_def prepared_simps)

lemma drain_notices_nth:
  "notices_ok (players g ! q) \<Longrightarrow>
   notices_ok (players (state_left (drain u clock k ps g)) ! q)"
  using drain_players_rel [where R = "\<lambda>a b. notices_ok a \<longrightarrow> notices_ok b"
      and g = g and q = q and u = u and clock = clock and k = k and ps = ps]
  by (simp add: notices_ok_assigned notices_ok_prepared)

lemma connectWaitingPlayers_notices:
  "all_notices_ok g \<Longrightarrow> all_notices_ok (state_left (connectWaitingPlayers u clock g))"
  by (simp add: all_notices_ok_def connectWaitingPlayers_def drain_length_players
      drain_notices_nth)

lemma notices_ok_newPlayer:
  "notices_ok ((newPlayer freshSocket)\<lparr>on_disconnect := ls\<rparr>)"
  by (simp add: notices_ok_def newPlayer_def sendNotice_simps freshSocket_def)

lemma handle_notices: "all_notices_ok g \<Longrightarrow> all_notices_ok (handle u e g)"
proof (cases e)
  case (ClientConnection clock)
  assume ok: "all_notices_ok g"
  have "all_notices_ok (enqueued g)"
    using ok notices_ok_newPlayer [of "[QueueDelete]"]
    by (auto simp: all_notices_ok_def enqueued_def nth_append less_Suc_eq)
  then show ?thesis unfolding ClientConnection handle.simps onClientConnection_enqueued
    by (rule connectWaitingPlayers_notices)
next
  case (StreamerData clock)
  assume "all_notices_ok g"
  then show ?thesis unfolding StreamerData handle.simps by (rule connectWaitingPlayers_notices)
next
  case (StreamerClose p)
  assume "all_notices_ok g"
  then show ?thesis unfolding StreamerClose
    by (auto simp: all_notices_ok_def handleStreamerClose_players notices_ok_def sendNotice_simps)
next
  case (StreamerError p)
  assume "all_notices_ok g"
  then show ?thesis unfolding StreamerError
    by (simp add: all_notices_ok_def onStreamerError_simps)
next
  case (ClientClosing p)
  assume "all_notices_ok g"
  then show ?thesis unfolding ClientClosing handle_ClientClosing
    by (auto simp: all_notices_ok_def closing_simps notices_ok_def)
next
  case (ClientClose p)
  assume "all_notices_ok g"
  then show ?thesis unfolding ClientClose
    by (auto simp: all_notices_ok_def onClientClose_players notices_ok_def)
next
  case (PoolStatus s n t r)
  assume "all_notices_ok g"
  then show ?thesis unfolding PoolStatus by (simp add: all_notices_ok_def)
next
  case (PoolJoin srv)
  assume "all_notices_ok g"
  then show ?thesis unfolding PoolJoin by (simp add: all_notices_ok_def)
qed

lemma reachable_notices: "reachable u g \<Longrightarrow> all_notices_ok g"
proof (induction rule: reachable.induct)
  case (start dbg ps)
  show ?case by (simp add: all_notices_ok_def initial_def)
next
  case (step g e)
  then show ?case by (simp add: handle_notices)
qed

lemma clients_inv_players_only:
  "clients_inv g \<Longrightarrow> clients g' = clients g \<Longrightarrow> length (players g') = length (players g) \<Longrightarrow>
   (\<And>q. readyState (ws (players g' ! q)) = readyState (ws (players g ! q))) \<Longrightarrow> clients_inv g'"
  by (simp add: clients_inv_def Disconnected_def)

lemma handle_clients: "clients_inv g \<Longrightarrow> clients_inv (handle u e g)"
proof (cases e)
  case (ClientConnection clock)
  assume ci: "clients_inv g"
  let ?g1 = "enqueued g"
  from ci have nin: "length (players g) \<notin> set (clients g)" by (simp add: clients_inv_def)
  have "clients_inv ?g1"
    unfolding clients_inv_def
  proof (intro conjI allI)
    show "distinct (clients ?g1)" using ci nin
      by (simp add: clients_inv_def enqueued_simps set_add_def)
    fix p
    show "p \<in> set (clients ?g1) \<longleftrightarrow>
          p < length (players ?g1) \<and> \<not> Disconnected (players ?g1 ! p)"
    proof (cases "p < length (players g)")
      case True
      with ci nin show ?thesis by (auto simp: clients_inv_def enqueued_simps set_add_def)
    next
      case False
      with ci nin show ?thesis
        by (cases "p = length (players g)")
           (auto simp: clients_inv_def enqueued_simps set_add_def Disconnected_def)
    qed
  qed
  then have "clients_inv (state_left (connectWaitingPlayers u clock ?g1))"
    by (rule clients_inv_players_only) (simp_all only: connectWaitingPlayers_simps)
  then show ?thesis unfolding ClientConnection by (simp add: onClientConnection_enqueued)
next
  case (StreamerData clock)
  assume "clients_inv g"
  then show ?thesis unfolding StreamerData
    by (rule clients_inv_players_only) (simp_all only: handle.simps connectWaitingPlayers_simps)
next
  case (StreamerClose p)
  assume "clients_inv g"
  then show ?thesis unfolding StreamerClose
    by (rule clients_inv_players_only) (simp_all add: handleStreamerClose_players sendNotice_simps)
next
  case (StreamerError p)
  assume "clients_inv g"
  then show ?thesis unfolding StreamerError
    by (rule clients_inv_players_only) (simp_all add: onStreamerError_simps)
next
  case (ClientClosing p)
  assume ci: "clients_inv g"
  show ?thesis
  proof (cases "p < length (players g) \<and> readyState (ws (players g ! p)) = OPEN")
    case False
    with ci show ?thesis unfolding ClientClosing handle_ClientClosing by auto
  next
    case True
    have "clients_inv (closing p g)"
      unfolding clients_inv_def
    proof (intro conjI allI)
      show "distinct (clients (closing p g))" using ci by (simp add: clients_inv_def closing_simps)
      fix q
      show "q \<in> set (clients (closing p g)) \<longleftrightarrow>
          q < length (players (closing p g)) \<and> \<not> Disconnected (players (closing p g) ! q)"
        using ci True
        by (cases "q = p") (simp_all add: clients_inv_def closing_simps Disconnected_def)
    qed
    with True show ?thesis unfolding ClientClosing handle_ClientClosing by simp
  qed
next
  case (ClientClose p)
  assume ci: "clients_inv g"
  show ?thesis
  proof (cases "p < length (players g) \<and> readyState (ws (players g ! p)) \<noteq> CLOSED")
    case False
    with ci show ?thesis unfolding ClientClose by auto
  next
    case True
    have "clients_inv (onClientClose p g)"
      unfolding clients_inv_def
    proof (intro conjI allI)
      show "distinct (clients (onClientClose p g))"
        using ci by (simp add: clients_inv_def onClientClose_players set_delete_def distinct_removeAll)
      fix q
      show "q \<in> set (clients (onClientClose p g)) \<longleftrightarrow>
          q < length (players (onClientClose p g)) \<and> \<not> Disconnected (players (onClientClose p g) ! q)"
        using ci True
        by (cases "q = p") (simp_all add: clients_inv_def onClientClose_players set_delete_def Disconnected_def)
    qed
    with True show ?thesis unfolding ClientClose by simp
  qed
next
  case (PoolStatus s n t r)
  assume "clients_inv g"
  then show ?thesis unfolding PoolStatus by (rule clients_inv_players_only) simp_all
next
  case (PoolJoin srv)
  assume "clients_inv g"
  then show ?thesis unfolding PoolJoin by (rule clients_inv_players_only) simp_all
qed

lemma reachable_clients: "reachable u g \<Longrightarrow> clients_inv g"
proof (induction rule: reachable.induct)
  case (start dbg ps)
  show ?case by (simp add: clients_inv_def initial_def)
next
  case (step g e)
  then show ?case by (simp add: handle_clients)
qed

lemma clients_count: "clients_inv g \<Longrightarrow> length (clients g) = connectedClients g"
proof -
  assume ci: "clients_inv g"
  then have "length (clients g) = card (set (clients g))"
    by (simp add: clients_inv_def distinct_card)
  also have "set (clients g) = {p. p < length (players g) \<and> \<not> Disconnected (players g ! p)}"
    using ci by (auto simp: clients_inv_def)
  also have "card \<dots> = connectedClients g"
    by (simp add: connectedClients_def length_filter_conv_card)
  finally show ?thesis .
qed

lemma drain_untouched:
  "q \<notin> set ps \<Longrightarrow> players (state_left (drain u clock k ps g)) ! q = players g ! q"
proof (induction ps arbitrary: g k)
  case Nil
  show ?case by simp
next
  case (Cons p ps)
  then have qp: "q \<noteq> p" and qps: "q \<notin> set ps" by auto
  show ?case
  proof (cases "nextAvailable g (clock k)")
    case None
    then show ?thesis by simp
  next
    case (Some s)
    let ?g' = "state_left (assignPlayer u p s g)"
    have one: "players ?g' ! q = players g ! q" using qp by (simp add: assignPlayer_players_nth)
    have "players (state_left (drain u clock (Suc k) ps ?g')) ! q = players ?g' ! q"
      using qps by (rule Cons.IH)
    with one show ?thesis
      unfolding drain_visit [where clock = clock and k = k, OF Some] by simp
  qed
qed

lemma drain_outbox_grows:
  "\<exists>ns. outbox (ws (players (state_left (drain u clock k ps g)) ! q)) =
        outbox (ws (players g ! q)) @ ns"
  by (rule drain_players_rel
      [where R = "\<lambda>a b. \<exists>ns. outbox (ws b) = outbox (ws a) @ ns"])
     (auto simp: assigned_simps prepared_simps)

lemma available_not_allocated:
  "nextAvailable g now = Some s \<Longrightarrow> s < length (pool g) \<and> \<not> allocated (pool g ! s)"
  by (rule available_in_pool)

lemma assignPlayer_keeps_other:
  "s \<noteq> w \<Longrightarrow> pool (state_left (assignPlayer u p s g)) ! w = pool g ! w"
  by (simp add: assignPlayer_pool set_allocated_pool_nth)

lemma assignPlayer_holder:
  assumes "stream (players (state_left (assignPlayer u p s g)) ! q) = Some w"
  shows "stream (players g ! q) = Some w \<or>
         (q = p \<and> s = w \<and> p < length (players g) \<and> isOpen (ws (players g ! p)))"
  using assms assignPlayer_players_cases [of u p s g q]
  by (auto simp: assigned_simps prepared_simps)

lemma assignPlayer_allocates:
  "s < length (pool g) \<Longrightarrow> isOpen (ws (players g ! p)) \<Longrightarrow>
   allocated (pool (state_left (assignPlayer u p s g)) ! s)"
  by (simp add: assignPlayer_pool set_allocated_pool_nth)

lemma drain_allocated:
  assumes "w < length (pool g)" "allocated (pool g ! w)"
  shows "allocated (pool (state_left (drain u clock k ps g)) ! w) \<and>
         (\<forall>q. stream (players (state_left (drain u clock k ps g)) ! q) = Some w \<longrightarrow>
              stream (players g ! q) = Some w)"
proof -
  let ?P = "\<lambda>h::gateway. w < length (pool h) \<and> allocated (pool h ! w) \<and>
      (\<forall>q. stream (players h ! q) = Some w \<longrightarrow> stream (players g ! q) = Some w)"
  have "?P (state_left (drain u clock k ps g))"
  proof (rule drain_induct [where P = ?P])
    show "?P g" using assms by simp
  next
    fix p s t and h :: gateway
    assume h: "?P h" and s: "nextAvailable h t = Some s"
    from available_not_allocated [OF s] h have sw: "s \<noteq> w" by auto
    let ?h' = "state_left (assignPlayer u p s h)"
    have "stream (players g ! q) = Some w" if "stream (players ?h' ! q) = Some w" for q
      using assignPlayer_holder [OF that] sw h by auto
    with h sw show "?P ?h'" by (simp add: assignPlayer_simps assignPlayer_keeps_other)
  qed
  then show ?thesis by simp
qed

lemma drain_one_new_holder:
  assumes "stream (players (state_left (drain u clock k ps g)) ! q) = Some w"
    and "stream (players (state_left (drain u clock k ps g)) ! q') = Some w"
    and "q \<noteq> q'"
  shows "stream (players g ! q) = Some w \<or> stream (players g ! q') = Some w"
  using assms
proof (induction ps arbitrary: g k)
  case Nil
  then show ?case by simp
next
  case (Cons p ps)
  show ?case
  proof (cases "nextAvailable g (clock k)")
    case None
    with Cons.prems show ?thesis by simp
  next
    case (Some s)
    let ?g' = "state_left (assignPlayer u p s g)"
    note eq = drain_visit [where clock = clock and k = k, OF Some, of u p ps]
    have held: "stream (players ?g' ! q) = Some w \<or> stream (players ?g' ! q') = Some w"
    proof (cases "thrown (assignPlayer u p s g)")
      case True
      with Cons.prems(1) show ?thesis unfolding eq by simp
    next
      case False
      with Cons.prems have f: "stream (players (state_left (drain u clock (Suc k) ps ?g')) ! q) = Some w"
        "stream (players (state_left (drain u clock (Suc k) ps ?g')) ! q') = Some w"
        unfolding eq by simp_all
      from Cons.IH [OF f Cons.prems(3)] show ?thesis .
    qed
    show ?thesis
    proof (rule ccontr)
      assume no: "\<not> ?thesis"
      with held assignPlayer_holder [of u p s g q w] assignPlayer_holder [of u p s g q' w]
      have new: "s = w" "p < length (players g)" "isOpen (ws (players g ! p))"
        "q = p \<or> q' = p" by auto
      from available_not_allocated [OF Some] new
      have al: "w < length (pool ?g')" "allocated (pool ?g' ! w)"
        by (simp_all add: assignPlayer_simps assignPlayer_allocates)
      have both: "stream (players ?g' ! q) = Some w \<and> stream (players ?g' ! q') = Some w"
      proof (cases "thrown (assignPlayer u p s g)")
        case True
        with Cons.prems(1,2) show ?thesis unfolding eq by simp
      next
        case False
        with Cons.prems(1,2) drain_allocated [OF al, of u clock "Suc k" ps]
        show ?thesis unfolding eq by simp
      qed
      from new(4) show False
      proof
        assume "q = p"
        with Cons.prems(3) have "players ?g' ! q' = players g ! q'"
          by (simp add: assignPlayer_players_nth)
        with both no show False by simp
      next
        assume "q' = p"
        with Cons.prems(3) have "players ?g' ! q = players g ! q"
          by (simp add: assignPlayer_players_nth)
        with both no show False by simp
      qed
    qed
  qed
qed

lemma nextAvailable_only:
  assumes w: "w < length (pool g)"
    and only: "\<forall>j < length (pool g). available (debug g) (now - livenessWindow) (pool g ! j) = (j = w)"
  shows "nextAvailable g now = Some w"
proof (cases "nextAvailable g now")
  case None
  then have "\<not> available (debug g) (now - livenessWindow) (pool g ! w)"
    using w by (simp add: nextAvailable_None)
  with w only show ?thesis by simp
next
  case (Some j)
  from nextAvailable_Some [OF Some] only have "j = w" by blast
  with Some show ?thesis by simp
qed

lemma nextAvailable_none_left:
  assumes others: "\<forall>j < length (pool g). j \<noteq> w \<longrightarrow>
        \<not> available (debug g) (now - livenessWindow) (pool g ! j)"
    and g': "debug g' = debug g" "length (pool g') = length (pool g)"
      "\<forall>j < length (pool g). j \<noteq> w \<longrightarrow> pool g' ! j = pool g ! j"
      "allocated (pool g' ! w)"
  shows "nextAvailable g' now = None"
proof -
  have "\<not> available (debug g') (now - livenessWindow) (pool g' ! j)" if "j < length (pool g')" for j
  proof (cases "j = w")
    case True
    with g'(4) show ?thesis by (simp add: available_def)
  next
    case False
    with that g' others show ?thesis by simp
  qed
  then show ?thesis by (auto simp: nextAvailable_None in_set_conv_nth)
qed

lemma assignPlayer_visit:
  assumes inv: "queue_inv g" and pin: "p \<in> set (queue g)"
    and ok: "u (address (pool g ! s)) (port (pool g ! s))"
  shows "p < length (players g)"
    and "isOpen (ws (players g ! p)) \<Longrightarrow>
         stream (players (state_left (assignPlayer u p s g)) ! p) = Some s"
    and "\<not> isOpen (ws (players g ! p)) \<Longrightarrow>
         players (state_left (assignPlayer u p s g)) ! p = players g ! p"
    and "\<not> thrown (assignPlayer u p s g)"
proof -
  from inv pin have "waiting g p" by (simp add: queue_inv_def)
  then show plt: "p < length (players g)" by (simp add: waiting_def)
  show "stream (players (state_left (assignPlayer u p s g)) ! p) = Some s"
    if "isOpen (ws (players g ! p))"
    using that plt ok by (simp add: assignPlayer_players_nth assigned_simps)
  show "players (state_left (assignPlayer u p s g)) ! p = players g ! p"
    if "\<not> isOpen (ws (players g ! p))"
    using that by (simp add: assignPlayer_players_nth)
  show "\<not> thrown (assignPlayer u p s g)" using ok by (simp add: assignPlayer_thrown)
qed

lemma drain_fifo:
  assumes "queue_inv g" "queue g = ps" "accepted u g"
  shows "\<exists>n \<le> length ps.
     queue (state_left (drain u clock k ps g)) = drop n ps \<and>
     (\<forall>i < n. isOpen (ws (players g ! (ps ! i))) \<longrightarrow>
        stream (players (state_left (drain u clock k ps g)) ! (ps ! i)) \<noteq> None) \<and>
     (\<forall>i < n. \<not> isOpen (ws (players g ! (ps ! i))) \<longrightarrow>
        players (state_left (drain u clock k ps g)) ! (ps ! i) = players g ! (ps ! i)) \<and>
     (\<forall>q \<in> set (drop n ps). players (state_left (drain u clock k ps g)) ! q = players g ! q) \<and>
     (n < length ps \<longrightarrow> nextAvailable (state_left (drain u clock k ps g)) (clock (k + n)) = None)"
  using assms
proof (induction ps arbitrary: g k)
  case Nil
  then show ?case by simp
next
  case (Cons p ps)
  show ?case
  proof (cases "nextAvailable g (clock k)")
    case None
    with Cons.prems show ?thesis by (intro exI [of _ 0]) simp
  next
    case (Some s)
    let ?g' = "state_left (assignPlayer u p s g)"
    let ?h = "state_left (drain u clock (Suc k) ps ?g')"
    from Cons.prems have pin: "p \<in> set (queue g)" and d: "distinct (p # ps)"
      by (auto simp: queue_inv_def)
    then have np: "p \<notin> set ps" by simp
    from available_in_pool [OF Some] Cons.prems(3)
    have ok: "u (address (pool g ! s)) (port (pool g ! s))" by (simp add: accepted_def)
    note v = assignPlayer_visit [where u = u and s = s, OF Cons.prems(1) pin ok]
    have fin: "state_left (drain u clock k (p # ps) g) = ?h"
      unfolding drain_visit [where clock = clock and k = k, OF Some] using v(4) by simp
    have inv': "queue_inv ?g'" using Cons.prems(1) by (rule assignPlayer_inv)
    have q': "queue ?g' = ps" using Cons.prems(2) np
      by (simp add: assignPlayer_simps set_delete_def)
    have acc': "accepted u ?g'" using Cons.prems(3) by (rule assignPlayer_accepted)
    from Cons.IH [OF inv' q' acc', of "Suc k"] obtain n where n: "n \<le> length ps"
      "queue ?h = drop n ps"
      "\<forall>i < n. isOpen (ws (players ?g' ! (ps ! i))) \<longrightarrow> stream (players ?h ! (ps ! i)) \<noteq> None"
      "\<forall>i < n. \<not> isOpen (ws (players ?g' ! (ps ! i))) \<longrightarrow>
          players ?h ! (ps ! i) = players ?g' ! (ps ! i)"
      "\<forall>q \<in> set (drop n ps). players ?h ! q = players ?g' ! q"
      "n < length ps \<longrightarrow> nextAvailable ?h (clock (Suc k + n)) = None" by blast
    have other: "players ?g' ! x = players g ! x" if "x \<in> set ps" for x
    proof -
      from that np have "x \<noteq> p" by auto
      then show ?thesis by (simp add: assignPlayer_players_nth)
    qed
    have hp: "players ?h ! p = players ?g' ! p" using np by (rule drain_untouched)
    have m1: "\<forall>i < Suc n. isOpen (ws (players g ! ((p # ps) ! i))) \<longrightarrow>
        stream (players ?h ! ((p # ps) ! i)) \<noteq> None"
    proof (intro allI impI)
      fix i assume i: "i < Suc n" and o: "isOpen (ws (players g ! ((p # ps) ! i)))"
      show "stream (players ?h ! ((p # ps) ! i)) \<noteq> None"
      proof (cases i)
        case 0
        with o v(2) hp show ?thesis by simp
      next
        case (Suc j)
        with i n(1) have j: "j < n" "ps ! j \<in> set ps" by simp_all
        with o Suc other have "isOpen (ws (players ?g' ! (ps ! j)))" by simp
        with n(3) j Suc show ?thesis by simp
      qed
    qed
    have m2: "\<forall>i < Suc n. \<not> isOpen (ws (players g ! ((p # ps) ! i))) \<longrightarrow>
        players ?h ! ((p # ps) ! i) = players g ! ((p # ps) ! i)"
    proof (intro allI impI)
      fix i assume i: "i < Suc n" and o: "\<not> isOpen (ws (players g ! ((p # ps) ! i)))"
      show "players ?h ! ((p # ps) ! i) = players g ! ((p # ps) ! i)"
      proof (cases i)
        case 0
        with o v(3) hp show ?thesis by simp
      next
        case (Suc j)
        with i n(1) have j: "j < n" "ps ! j \<in> set ps" by simp_all
        with o Suc other have "\<not> isOpen (ws (players ?g' ! (ps ! j)))" by simp
        with n(4) j have "players ?h ! (ps ! j) = players ?g' ! (ps ! j)" by simp
        with other j Suc show ?thesis by simp
      qed
    qed
    have rest: "\<forall>q \<in> set (drop (Suc n) (p # ps)). players ?h ! q = players g ! q"
    proof
      fix q assume "q \<in> set (drop (Suc n) (p # ps))"
      then have qin: "q \<in> set (drop n ps)" by simp
      then have "q \<in> set ps" by (rule in_set_dropD)
      with other n(5) qin show "players ?h ! q = players g ! q" by simp
    qed
    have "Suc n \<le> length (p # ps) \<and> queue ?h = drop (Suc n) (p # ps) \<and>
       (Suc n < length (p # ps) \<longrightarrow> nextAvailable ?h (clock (k + Suc n)) = None)"
      using n(1,2,6) by simp
    with m1 m2 rest show ?thesis unfolding fin by (intro exI [of _ "Suc n"]) blast
  qed
qed

lemma drain_single_worker:
  assumes inv: "queue_inv g" and q: "queue g = a # rest"
    and op: "isOpen (ws (players g ! a))"
    and w: "w < length (pool g)" and ok: "u (address (pool g ! w)) (port (pool g ! w))"
    and only: "\<forall>k. \<forall>j < length (pool g).
        available (debug g) (clock k - livenessWindow) (pool g ! j) = (j = w)"
  shows "queue (state_left (connectWaitingPlayers u clock g)) = rest"
    and "stream (players (state_left (connectWaitingPlayers u clock g)) ! a) = Some w"
    and "allocated (pool (state_left (connectWaitingPlayers u clock g)) ! w)"
    and "\<forall>b \<in> set rest. players (state_left (connectWaitingPlayers u clock g)) ! b = players g ! b"
    and "\<not> thrown (connectWaitingPlayers u clock g)"
proof -
  let ?g' = "state_left (assignPlayer u a w g)"
  from inv q have ain: "a \<in> set (queue g)" and na: "a \<notin> set rest"
    by (auto simp: queue_inv_def)
  note v = assignPlayer_visit [where u = u and s = w, OF inv ain ok]
  from only have only0: "\<forall>j < length (pool g).
        available (debug g) (clock 0 - livenessWindow) (pool g ! j) = (j = w)" by blast
  have first: "nextAvailable g (clock 0) = Some w" using w only0 by (rule nextAvailable_only)
  have al: "allocated (pool ?g' ! w)" using w op by (rule assignPlayer_allocates)
  have others: "\<forall>j < length (pool g). j \<noteq> w \<longrightarrow> pool ?g' ! j = pool g ! j"
    by (simp add: assignPlayer_keeps_other)
  have stale: "\<forall>j < length (pool g). j \<noteq> w \<longrightarrow>
        \<not> available (debug g) (clock 1 - livenessWindow) (pool g ! j)"
    using only by blast
  have none: "nextAvailable ?g' (clock 1) = None"
    using stale _ _ others al by (rule nextAvailable_none_left) (simp_all add: assignPlayer_simps)
  have "drain u clock (Suc 0) rest ?g' = Returned ?g'"
    using none by (cases rest) simp_all
  then have "drain u clock 0 (a # rest) g = Returned ?g'"
    unfolding drain_visit [where clock = clock and k = 0, OF first] using v(4) by simp
  then have eq: "connectWaitingPlayers u clock g = Returned ?g'"
    using q by (simp add: connectWaitingPlayers_def)
  show "queue (state_left (connectWaitingPlayers u clock g)) = rest"
    using q na by (simp add: eq assignPlayer_simps set_delete_def)
  show "stream (players (state_left (connectWaitingPlayers u clock g)) ! a) = Some w"
    using v(2) op by (simp add: eq)
  show "allocated (pool (state_left (connectWaitingPlayers u clock g)) ! w)"
    using al by (simp add: eq)
  show "\<forall>b \<in> set rest. players (state_left (connectWaitingPlayers u clock g)) ! b = players g ! b"
    using na by (auto simp: eq assignPlayer_players_nth)
  show "\<not> thrown (connectWaitingPlayers u clock g)" by (simp add: eq)
qed

lemma connectWaitingPlayers_allocated:
  assumes "w < length (pool g)" "allocated (pool g ! w)"
  shows "allocated (pool (state_left (connectWaitingPlayers u clock g)) ! w)"
    and "stream (players (state_left (connectWaitingPlayers u clock g)) ! q) = Some w \<Longrightarrow>
         stream (players g ! q) = Some w"
  using drain_allocated [OF assms, of u clock 0 "queue g"] assms
  by (auto simp: connectWaitingPlayers_def split: if_splits)

lemma connectWaitingPlayers_one_new_holder:
  assumes "stream (players (state_left (connectWaitingPlayers u clock g)) ! q) = Some w"
    and "stream (players (state_left (connectWaitingPlayers u clock g)) ! q') = Some w"
    and "q \<noteq> q'"
  shows "stream (players g ! q) = Some w \<or> stream (players g ! q') = Some w"
  using assms drain_one_new_holder [of u clock 0 "queue g" g q w q']
  by (auto simp: connectWaitingPlayers_def split: if_splits)

lemma enqueued_holder:
  assumes "q < length (players (enqueued g))" "stream (players (enqueued g) ! q) = Some w"
  shows "q < length (players g) \<and> stream (players g ! q) = Some w"
proof -
  from assms have "q \<noteq> length (players g)" by (auto simp: enqueued_simps)
  with assms(1) have "q < length (players g)" by (simp add: enqueued_simps)
  with assms(2) show ?thesis by (simp add: enqueued_simps)
qed

lemma handle_length_players:
  "length (players g) \<le> length (players (handle u e g))"
  by (cases e)
     (simp_all add: onClientConnection_enqueued connectWaitingPlayers_simps enqueued_simps
       handleStreamerClose_players onStreamerError_simps onClientClose_players
       map_player_simps)

lemma handle_no_new_holder:
  assumes w: "w < length (pool g)" "allocated (pool g ! w)"
    and q: "q < length (players (handle u e g))" "stream (players (handle u e g) ! q) = Some w"
  shows "q < length (players g) \<and> stream (players g ! q) = Some w"
proof (cases e)
  case (ClientConnection clock)
  from w have w': "w < length (pool (enqueued g))" "allocated (pool (enqueued g) ! w)"
    by (simp_all add: enqueued_simps)
  from q have "q < length (players (enqueued g))"
    by (simp add: ClientConnection onClientConnection_enqueued connectWaitingPlayers_simps)
  moreover from q connectWaitingPlayers_allocated(2) [OF w']
  have "stream (players (enqueued g) ! q) = Some w"
    by (simp add: ClientConnection onClientConnection_enqueued)
  ultimately show ?thesis by (rule enqueued_holder)
next
  case (StreamerData clock)
  with q connectWaitingPlayers_allocated(2) [OF w] show ?thesis
    by (simp add: connectWaitingPlayers_simps)
next
  case (StreamerClose p)
  with q show ?thesis
    by (auto simp: handleStreamerClose_players sendNotice_simps split: if_splits)
next
  case (StreamerError p)
  with q show ?thesis by (auto simp: onStreamerError_simps split: if_splits)
next
  case (ClientClosing p)
  with q show ?thesis
    by (auto simp: map_player_simps map_player_nth split: if_splits)
next
  case (ClientClose p)
  with q show ?thesis by (auto simp: onClientClose_players split: if_splits)
next
  case (PoolStatus s n t r)
  with q show ?thesis by (auto split: if_splits)
next
  case (PoolJoin srv)
  with q show ?thesis by simp
qed

lemma handle_one_new_holder:
  assumes q: "q < length (players (handle u e g))" "stream (players (handle u e g) ! q) = Some w"
    and q': "q' < length (players (handle u e g))" "stream (players (handle u e g) ! q') = Some w"
    and ne: "q \<noteq> q'"
  shows "(q < length (players g) \<and> stream (players g ! q) = Some w) \<or>
         (q' < length (players g) \<and> stream (players g ! q') = Some w)"
proof (cases e)
  case (ClientConnection clock)
  from q q' have lt: "q < length (players (enqueued g))" "q' < length (players (enqueued g))"
    by (simp_all add: ClientConnection onClientConnection_enqueued connectWaitingPlayers_simps)
  from q(2) q'(2) ne
  have "stream (players (enqueued g) ! q) = Some w \<or> stream (players (enqueued g) ! q') = Some w"
    unfolding ClientConnection handle.simps onClientConnection_enqueued
    by (rule connectWaitingPlayers_one_new_holder)
  with lt enqueued_holder [of q g w] enqueued_holder [of q' g w] show ?thesis by blast
next
  case (StreamerData clock)
  from q(2) q'(2) ne
  have "stream (players g ! q) = Some w \<or> stream (players g ! q') = Some w"
    unfolding StreamerData handle.simps by (rule connectWaitingPlayers_one_new_holder)
  with q(1) q'(1) show ?thesis by (simp add: StreamerData connectWaitingPlayers_simps)
next
  case (StreamerClose p)
  with q show ?thesis
    by (auto simp: handleStreamerClose_players sendNotice_simps split: if_splits)
next
  case (StreamerError p)
  with q show ?thesis by (auto simp: onStreamerError_simps split: if_splits)
next
  case (ClientClosing p)
  with q show ?thesis
    by (auto simp: map_player_simps map_player_nth split: if_splits)
next
  case (ClientClose p)
  with q show ?thesis by (auto simp: onClientClose_players split: if_splits)
next
  case (PoolStatus s n t r)
  with q show ?thesis by (auto split: if_splits)
next
  case (PoolJoin srv)
  with q show ?thesis by simp
qed

lemma handle_keeps_allocated:
  assumes wf: "all_wf g" and w: "w < length (pool g)" "allocated (pool g ! w)"
    and e: "\<forall>p. e \<noteq> ClientClose p \<and> e \<noteq> StreamerError p"
  shows "allocated (pool (handle u e g) ! w)"
proof (cases e)
  case (ClientConnection clock)
  from w have "w < length (pool (enqueued g))" "allocated (pool (enqueued g) ! w)"
    by (simp_all add: enqueued_simps)
  then show ?thesis unfolding ClientConnection handle.simps onClientConnection_enqueued
    by (rule connectWaitingPlayers_allocated(1))
next
  case (StreamerData clock)
  from w show ?thesis unfolding StreamerData handle.simps
    by (rule connectWaitingPlayers_allocated(1))
next
  case (StreamerClose p)
  show ?thesis
  proof (cases "p < length (players g) \<and> stream (players g ! p) \<noteq> None")
    case True
    with wf have "set (on_drop (players g ! p)) \<subseteq> {Requeue}"
      by (simp add: all_wf_def wf_player_def)
    from handleStreamerClose_simps(1) [OF this] True w show ?thesis
      by (simp add: StreamerClose)
  next
    case False
    with w show ?thesis by (auto simp: StreamerClose)
  qed
next
  case (StreamerError p)
  with e show ?thesis by simp
next
  case (ClientClosing p)
  with w show ?thesis by (simp add: map_player_simps)
next
  case (ClientClose p)
  with e show ?thesis by simp
next
  case (PoolStatus s n t r)
  with w show ?thesis by (simp add: nth_upd)
next
  case (PoolJoin srv)
  with w show ?thesis by (simp add: nth_append)
qed


lemma queue_le_clients:
  assumes "queue_inv g" "clients_inv g"
  shows "length (queue g) \<le> length (clients g)"
proof -
  from assms have "set (queue g) \<subseteq> set (clients g)"
    by (auto simp: queue_inv_def clients_inv_def waiting_def)
  then have "card (set (queue g)) \<le> card (set (clients g))" by (simp add: card_mono)
  with assms show ?thesis by (simp add: queue_inv_def clients_inv_def distinct_card)
qed

lemma reachable_examples:
  "reachable usual_check one_waiting" "reachable usual_check one_matched"
  "reachable usual_check three_waiting" "reachable usual_check twice_assigned"
  "reachable usual_check head_closing" "reachable usual_check closing_dropped"
  unfolding one_waiting_def one_matched_def three_waiting_def twice_assigned_def
    head_closing_def closing_dropped_def
  by (rule reachable_run, rule reachable.start)+

lemma three_waiting_facts:
  "queue three_waiting = [0, 1, 2]"
  "length (pool three_waiting) = 1"
  "debug three_waiting = False"
  "pool three_waiting ! 0 = fresh_worker"
  "isOpen (ws (players three_waiting ! 0))"
  by (simp_all add: three_waiting_def eval_defs)

lemma head_closing_facts:
  "queue head_closing = [0, 1, 2]"
  "pool head_closing = [fresh_worker]"
  "debug head_closing = False"
  "readyState (ws (players head_closing ! 0)) = CLOSING"
  "stream (players head_closing ! 0) = None"
  "queue (state_left (connectWaitingPlayers usual_check (still 0) head_closing)) = [2]"
  "stream (players (state_left (connectWaitingPlayers usual_check (still 0) head_closing)) ! 0) = None"
  "stream (players (state_left (connectWaitingPlayers usual_check (still 0) head_closing)) ! 1) = Some 0"
  "stream (players (state_left (connectWaitingPlayers usual_check (still 0) head_closing)) ! 2) = None"
  by (simp_all add: head_closing_def fresh_worker_def eval_defs)

lemma closing_dropped_facts:
  "length (players closing_dropped) = 1"
  "queue closing_dropped = []"
  "stream (players closing_dropped ! 0) = None"
  "readyState (ws (players closing_dropped ! 0)) = CLOSING"
  by (simp_all add: closing_dropped_def fresh_worker_def eval_defs)

lemma twice_assigned_facts:
  "length (players twice_assigned) = 3"
  "readyState (ws (players twice_assigned ! 1)) = OPEN"
  "readyState (ws (players twice_assigned ! 2)) = OPEN"
  "stream (players twice_assigned ! 1) = Some 0"
  "stream (players twice_assigned ! 2) = Some 0"
  "allocated (pool twice_assigned ! 0)"
  by (simp_all add: twice_assigned_def eval_defs)

section \<open>The claims\<close>

subsection \<open>C2: eligibility of the worker the scan returns\<close>

text \<open>
  C2, as stated, fails at the edge of the liveness window. \<^verbatim>\<open>nextAvailable\<close> compares
  \<^verbatim>\<open>server.lastPingReceived >= Date.now() - 6e4\<close>, so a worker whose last ping is
  exactly 60000 ms old is still returned, while the claim asks for an age strictly below
  the window. The pool of one worker pinged at time 0, scanned at time 60000:
\<close>

theorem nextAvailable_window_edge:
  "nextAvailable (initial False boundary_pool) 60000 = Some 0 \<and>
   \<not> (60000 - lastPingReceived (pool (initial False boundary_pool) ! 0) < livenessWindow)"
  by (simp add: nextAvailable_def initial_def boundary_pool_def available_def livenessWindow_def)

text \<open>
  C2, amended: for every pool, debug flag and time, the worker \<^verbatim>\<open>nextAvailable\<close> returns
  is a record of the pool with no connected client, not allocated, and with a last ping at
  most 60000 ms old (the bound is inclusive); it is ready unless the debug flag is set.
  The debug flag stands in the readiness disjunct only: the other three checks hold
  whatever its value.
\<close>

theorem nextAvailable_eligible:
  assumes "nextAvailable g now = Some j"
  shows "j < length (pool g) \<and>
     numConnectedClients (pool g ! j) = 0 \<and>
     allocated (pool g ! j) = False \<and>
     now - lastPingReceived (pool g ! j) \<le> livenessWindow \<and>
     (ready (pool g ! j) = True \<or> debug g)"
proof -
  from nextAvailable_Some [OF assms]
  have "j < length (pool g)"
    and "available (debug g) (now - livenessWindow) (pool g ! j)" by simp_all
  then show ?thesis by (auto simp: available_def)
qed

theorem nextAvailable_eligible_witness:
  "nextAvailable (initial True boundary_pool) 60000 = Some 0 \<and>
   0 < length (pool (initial True boundary_pool)) \<and>
   numConnectedClients (pool (initial True boundary_pool) ! 0) = 0 \<and>
   allocated (pool (initial True boundary_pool) ! 0) = False \<and>
   60000 - lastPingReceived (pool (initial True boundary_pool) ! 0) \<le> livenessWindow"
proof -
  have h: "nextAvailable (initial True boundary_pool) 60000 = Some 0"
    by (simp add: nextAvailable_def initial_def boundary_pool_def available_def
        livenessWindow_def)
  from nextAvailable_eligible [OF h] h show ?thesis by simp
qed

subsection \<open>C5: who is in the waiting queue\<close>

text \<open>
  C5, as stated, fails from right to left. \<^verbatim>\<open>assignPlayer\<close> deletes the player it
  visits from the queue and matches it only if its client socket is open, and the
  \<^verbatim>\<open>drop\<close> listener re-queues under the same condition. A client socket leaves the state
  \<^verbatim>\<open>OPEN\<close> before its \<^verbatim>\<open>close\<close> is emitted, so a drain in between takes the player out
  of the queue: it has no worker leg, it is not disconnected, and it is not queued.
\<close>

theorem closing_player_unqueued:
  "reachable usual_check closing_dropped \<and> 0 < length (players closing_dropped) \<and>
   0 \<notin> set (queue closing_dropped) \<and>
   stream (players closing_dropped ! 0) = None \<and>
   \<not> Disconnected (players closing_dropped ! 0)"
  using reachable_examples(6) closing_dropped_facts by (simp add: Disconnected_def)

text \<open>
  C5, amended: in every reachable state, a player in the waiting queue is a player of the
  gateway, queued once, whose worker-leg handle is absent and which is not disconnected;
  and, as long as the socket constructor accepts the URL of every record of the pool, a
  player whose worker-leg handle is absent and whose client leg is open is in the queue.
  Nothing is said of a player without a worker leg whose client leg is no longer open.
\<close>

theorem queue_membership:
  assumes "reachable u g"
  shows "(p \<in> set (queue g) \<longrightarrow>
            p < length (players g) \<and> stream (players g ! p) = None \<and>
            \<not> Disconnected (players g ! p)) \<and>
         (accepted u g \<and> p < length (players g) \<and> stream (players g ! p) = None \<and>
          isOpen (ws (players g ! p)) \<longrightarrow> p \<in> set (queue g)) \<and>
         distinct (queue g)"
proof (intro conjI impI)
  from assms have inv: "queue_inv g" by (rule reachable_inv)
  then show "distinct (queue g)" by (simp add: queue_inv_def)
  {
    assume "p \<in> set (queue g)"
    with inv have "waiting g p" by (simp add: queue_inv_def)
    then show "p < length (players g)" "stream (players g ! p) = None"
      "\<not> Disconnected (players g ! p)" by (simp_all add: waiting_def)
  }
  assume a: "accepted u g \<and> p < length (players g) \<and> stream (players g ! p) = None \<and>
          isOpen (ws (players g ! p))"
  with assms have "open_queued g" by (simp add: reachable_open_queued)
  with a show "p \<in> set (queue g)" by (simp add: open_queued_def)
qed

theorem queue_membership_witness:
  "reachable usual_check one_waiting \<and> accepted usual_check one_waiting \<and>
   0 < length (players one_waiting) \<and> stream (players one_waiting ! 0) = None \<and>
   isOpen (ws (players one_waiting ! 0)) \<and> 0 \<in> set (queue one_waiting) \<and>
   \<not> Disconnected (players one_waiting ! 0) \<and>
   reachable usual_check one_matched \<and> stream (players one_matched ! 0) = Some 0 \<and>
   0 \<notin> set (queue one_matched)"
proof -
  note r1 = reachable_examples(1) and r2 = reachable_examples(2)
  have a: "accepted usual_check one_waiting" "0 < length (players one_waiting)"
    "stream (players one_waiting ! 0) = None" "isOpen (ws (players one_waiting ! 0))"
    by (simp_all add: one_waiting_eq accepted_def isOpen_def)
  have s2: "stream (players one_matched ! 0) = Some 0" by (rule one_matched_stream)
  note T1 = queue_membership [OF r1, of 0] and T2 = queue_membership [OF r2, of 0]
  from T1 a have q1: "0 \<in> set (queue one_waiting)" by blast
  with T1 have d1: "\<not> Disconnected (players one_waiting ! 0)" by blast
  from T2 s2 have q2: "0 \<notin> set (queue one_matched)" by auto
  from r1 r2 a s2 q1 d1 q2 show ?thesis by simp
qed

subsection \<open>C6: the constructor's validation\<close>

text \<open>
  C6 holds for the http server and the matchmaker server, and fails for the pool: with
  both servers and a metrics adapter given and no pool, none of the four checks throws
  (\<^verbatim>\<open>!pool instanceof Map\<close> is false for every value of \<^verbatim>\<open>pool\<close>) and the
  constructor returns an instance whose pool is undefined.
\<close>

theorem construct_without_pool:
  "construct dbg (Some \<lparr>opt_server = HttpServer, opt_matchmaker = NetServer,
      opt_pool = Undefined, opt_metrics = MetricsAdapterObject\<rparr>) =
   Inr \<lparr>inst_debug = dbg, inst_pool = Undefined, inst_queue = []\<rparr>"
  by (simp add: construct_def)

subsection \<open>C8: the client heartbeat\<close>



subsection \<open>C9: the notice sent when a player is created\<close>

text \<open>
  C9, as stated, fails on the type tag: \<^verbatim>\<open>sendNotice\<close> writes the constant
  \<^verbatim>\<open>type: 'matchmaker'\<close>, not \<^verbatim>\<open>matchmaker-notice\<close>. The first notice of the only
  player after one client has connected to a gateway with an empty pool:
\<close>

theorem creation_notice_tag:
  "type_tag (outbox (ws (players one_waiting ! 0)) ! 0) = ''matchmaker'' \<and>
   type_tag (outbox (ws (players one_waiting ! 0)) ! 0) \<noteq> ''matchmaker-notice''"
  by (simp add: one_waiting_eq)

text \<open>
  C9, amended: the constructor of a player sends, as the last thing it does, a notice
  with the type tag \<^verbatim>\<open>matchmaker\<close>, queued true, matched false and the detail
  "Waiting for available streamer"; when a client connects, the gateway creates one new
  player, and that notice is the first one on the new player's client leg.
\<close>

theorem creation_notice:
  "outbox (ws (newPlayer w)) = outbox w @
     [\<lparr>type_tag = ''matchmaker'', queued = True, matched = False,
       detail = Text ''Waiting for available streamer''\<rparr>] \<and>
   length (players (handle u (ClientConnection now) g)) = Suc (length (players g)) \<and>
   take 1 (outbox (ws (players (handle u (ClientConnection now) g) ! length (players g)))) =
     [\<lparr>type_tag = ''matchmaker'', queued = True, matched = False,
       detail = Text ''Waiting for available streamer''\<rparr>]"
proof -
  let ?n = "\<lparr>type_tag = ''matchmaker'', queued = True, matched = False,
       detail = Text ''Waiting for available streamer''\<rparr>"
  let ?p = "length (players g)"
  have new: "outbox (ws (newPlayer w)) = outbox w @ [?n]" for w
    by (simp add: newPlayer_def sendNotice_simps)
  have "outbox (ws (players (enqueued g) ! ?p)) = [?n]"
    by (simp add: enqueued_def newPlayer_def sendNotice_simps freshSocket_def)
  moreover obtain ns where
    "outbox (ws (players (state_left (drain u now 0 (queue (enqueued g)) (enqueued g))) ! ?p)) =
       outbox (ws (players (enqueued g) ! ?p)) @ ns"
    using drain_outbox_grows by blast
  ultimately have "take 1 (outbox (ws (players
      (state_left (connectWaitingPlayers u now (enqueued g))) ! ?p))) = [?n]"
    by (simp add: connectWaitingPlayers_def)
  then show ?thesis
    by (simp add: new onClientConnection_enqueued connectWaitingPlayers_simps enqueued_simps)
qed

theorem creation_notice_witness:
  "length (players one_matched) = 1 \<and>
   take 1 (outbox (ws (players one_matched ! 0))) =
     [\<lparr>type_tag = ''matchmaker'', queued = True, matched = False,
       detail = Text ''Waiting for available streamer''\<rparr>] \<and>
   length (outbox (ws (players one_matched ! 0))) = 2"
proof -
  have eq: "one_matched =
      handle usual_check (ClientConnection (still 0)) (initial False boundary_pool)"
    by (simp add: one_matched_def run_def)
  have len: "length (players (initial False boundary_pool)) = 0" by (simp add: initial_def)
  from creation_notice [of freshSocket usual_check "still 0" "initial False boundary_pool"]
  have "length (players one_matched) = 1 \<and>
     take 1 (outbox (ws (players one_matched ! 0))) =
     [\<lparr>type_tag = ''matchmaker'', queued = True, matched = False,
       detail = Text ''Waiting for available streamer''\<rparr>]"
    unfolding eq [symmetric] len by simp
  moreover have "length (outbox (ws (players one_matched ! 0))) = 2"
    by (simp add: one_matched_eq)
  ultimately show ?thesis by simp
qed

subsection \<open>C10: queued and matched never agree\<close>

text \<open>
  C10: in every reachable state, every notice that was handed to the client leg of any
  player has its field matched equal to the negation of its field queued.
\<close>

theorem notice_consistency:
  assumes "reachable u g" and "p < length (players g)"
    and "n \<in> set (outbox (ws (players g ! p)))"
  shows "matched n = (\<not> queued n)"
proof -
  from assms(1) have "all_notices_ok g" by (rule reachable_notices)
  with assms(2) have "notices_ok (players g ! p)" by (simp add: all_notices_ok_def)
  with assms(3) show ?thesis by (simp add: notices_ok_def)
qed

theorem notice_consistency_witness:
  "reachable usual_check one_matched \<and> 0 < length (players one_matched) \<and>
   outbox (ws (players one_matched ! 0)) ! 1 \<in> set (outbox (ws (players one_matched ! 0))) \<and>
   matched (outbox (ws (players one_matched ! 0)) ! 1) \<and>
   \<not> queued (outbox (ws (players one_matched ! 0)) ! 1)"
proof -
  have l: "0 < length (players one_matched)" by (simp add: one_matched_eq)
  have m: "outbox (ws (players one_matched ! 0)) ! 1 \<in> set (outbox (ws (players one_matched ! 0)))"
    by (simp add: one_matched_eq)
  have t: "matched (outbox (ws (players one_matched ! 0)) ! 1)" by (simp add: one_matched_eq)
  from notice_consistency [OF reachable_examples(2) l m] t
  have "\<not> queued (outbox (ws (players one_matched ! 0)) ! 1)" by simp
  with reachable_examples(2) l m t show ?thesis by simp
qed

subsection \<open>C7: the demand ratio\<close>

text \<open>
  C7, as stated, fails on what is counted: the gauge reads \<^verbatim>\<open>wss.clients.size\<close>, the
  number of client sockets connected to the socket server, and a matched client is one of
  them. With one ready worker and one client, matched to it, nobody waits, the ratio of
  the claim is 0 and the gauge reports 1.
\<close>

theorem demand_ratio_counts_matched:
  "reachable usual_check one_matched \<and> player_queue_count one_matched = 0 \<and>
   readyWorkers one_matched = 1 \<and>
   spec_demand_ratio (player_queue_count one_matched) (readyWorkers one_matched) = 0 \<and>
   streamer_demand_ratio one_matched = 1"
  using reachable_examples(2)
  by (simp add: one_matched_eq player_queue_count_def readyWorkers_def spec_demand_ratio_def
      streamer_demand_ratio_def)

text \<open>
  C7, amended: on every scrape the gauge reports connectedClients / readyWorkers when at
  least one worker is ready; with no ready worker it reports connectedClients + 1 if at
  least one client is connected and 0 otherwise, where connectedClients is the number of
  players whose client leg has not closed, waiting or not. The waiting clients are among
  them.
\<close>

theorem demand_ratio:
  assumes "reachable u g"
  shows "streamer_demand_ratio g = spec_demand_ratio (connectedClients g) (readyWorkers g) \<and>
         player_queue_count g \<le> connectedClients g"
proof -
  from assms have ci: "clients_inv g" and qi: "queue_inv g"
    by (rule reachable_clients, rule reachable_inv)
  from ci have n: "length (clients g) = connectedClients g" by (rule clients_count)
  from queue_le_clients [OF qi ci] n have "player_queue_count g \<le> connectedClients g"
    by (simp add: player_queue_count_def)
  moreover have "streamer_demand_ratio g = spec_demand_ratio (connectedClients g) (readyWorkers g)"
    by (simp add: streamer_demand_ratio_def spec_demand_ratio_def readyWorkers_def n Let_def)
  ultimately show ?thesis by simp
qed

theorem demand_ratio_witness:
  "reachable usual_check one_matched \<and> connectedClients one_matched = 1 \<and>
   readyWorkers one_matched = 1 \<and> streamer_demand_ratio one_matched = 1 \<and>
   reachable usual_check one_waiting \<and> connectedClients one_waiting = 1 \<and>
   readyWorkers one_waiting = 0 \<and> streamer_demand_ratio one_waiting = 2"
proof -
  have c: "connectedClients one_matched = 1" "readyWorkers one_matched = 1"
    by (simp_all add: one_matched_eq connectedClients_def readyWorkers_def Disconnected_def)
  have c': "connectedClients one_waiting = 1" "readyWorkers one_waiting = 0"
    by (simp_all add: one_waiting_eq connectedClients_def readyWorkers_def Disconnected_def)
  from demand_ratio [OF reachable_examples(2)] c
  have "streamer_demand_ratio one_matched = 1" by (simp add: spec_demand_ratio_def)
  moreover from demand_ratio [OF reachable_examples(1)] c'
  have "streamer_demand_ratio one_waiting = 2" by (simp add: spec_demand_ratio_def)
  ultimately show ?thesis using c c' reachable_examples(1,2) by simp
qed

subsection \<open>C4: the worker leg of a matched player closes\<close>




subsection \<open>C3: the drain is first in, first out\<close>

text \<open>
  C3, as stated, fails in its example: \<^verbatim>\<open>assignPlayer\<close> deletes the player it visits
  from the queue and matches it only if its client socket is open. With three players
  queued, the socket of the first no longer open, and one eligible worker, a drain takes
  the first player out of the queue unmatched and gives the worker to the second.
\<close>

theorem closing_head_skipped:
  "reachable usual_check head_closing \<and> queue head_closing = [0, 1, 2] \<and>
   length (pool head_closing) = 1 \<and> nextAvailable head_closing 0 = Some 0 \<and>
   queue (state_left (connectWaitingPlayers usual_check (still 0) head_closing)) = [2] \<and>
   stream (players (state_left (connectWaitingPlayers usual_check (still 0) head_closing)) ! 0) =
     None \<and>
   stream (players (state_left (connectWaitingPlayers usual_check (still 0) head_closing)) ! 1) =
     Some 0"
proof -
  have "nextAvailable head_closing 0 = Some 0"
    by (simp add: nextAvailable_def head_closing_facts fresh_worker_def available_def
        livenessWindow_def)
  with reachable_examples(5) head_closing_facts show ?thesis by simp
qed

text \<open>
  C3, amended: in every reachable state whose pool records all have a URL the socket
  constructor accepts, \<^verbatim>\<open>connectWaitingPlayers\<close> returns, and it takes a prefix of the
  queue (the queue holds the players in the order they were added): each of the first
  \<open>n\<close> players is visited in its turn and leaves the queue, matched if its client leg is
  open and untouched if it is not; the others stay queued in their order, untouched; and
  when players stay, no worker is available at the reading of the clock for the first of
  them, so the drain stopped at the first player it could not serve. In particular, with
  the players \<open>s1\<close>, \<open>s2\<close>, \<open>s3\<close> queued in this order, the client leg of \<open>s1\<close> open,
  and \<open>w\<close> the one available worker at every reading of the clock, a drain matches
  \<open>s1\<close> to \<open>w\<close> and leaves \<open>s2\<close>, \<open>s3\<close> queued in this order, untouched.
\<close>

theorem fifo_drain:
  assumes "reachable u g" and "accepted u g"
  shows "\<not> thrown (connectWaitingPlayers u clock g) \<and>
         (\<exists>n \<le> length (queue g).
            queue (state_left (connectWaitingPlayers u clock g)) = drop n (queue g) \<and>
            (\<forall>i < n. isOpen (ws (players g ! (queue g ! i))) \<longrightarrow>
               stream (players (state_left (connectWaitingPlayers u clock g)) ! (queue g ! i))
                 \<noteq> None) \<and>
            (\<forall>i < n. \<not> isOpen (ws (players g ! (queue g ! i))) \<longrightarrow>
               players (state_left (connectWaitingPlayers u clock g)) ! (queue g ! i) =
                 players g ! (queue g ! i)) \<and>
            (\<forall>q \<in> set (drop n (queue g)).
               players (state_left (connectWaitingPlayers u clock g)) ! q = players g ! q) \<and>
            (n < length (queue g) \<longrightarrow>
               nextAvailable (state_left (connectWaitingPlayers u clock g)) (clock n) = None)) \<and>
         (queue g = [s1, s2, s3] \<and> isOpen (ws (players g ! s1)) \<and> w < length (pool g) \<and>
          (\<forall>k. \<forall>j < length (pool g).
             available (debug g) (clock k - livenessWindow) (pool g ! j) = (j = w)) \<longrightarrow>
            queue (state_left (connectWaitingPlayers u clock g)) = [s2, s3] \<and>
            stream (players (state_left (connectWaitingPlayers u clock g)) ! s1) = Some w \<and>
            allocated (pool (state_left (connectWaitingPlayers u clock g)) ! w) \<and>
            players (state_left (connectWaitingPlayers u clock g)) ! s2 = players g ! s2 \<and>
            players (state_left (connectWaitingPlayers u clock g)) ! s3 = players g ! s3)"
proof (intro conjI impI)
  let ?g' = "state_left (connectWaitingPlayers u clock g)"
  from assms(1) have inv: "queue_inv g" by (rule reachable_inv)
  show "\<not> thrown (connectWaitingPlayers u clock g)"
    using assms(2) by (simp add: connectWaitingPlayers_def drain_returns)
  show "\<exists>n \<le> length (queue g).
            queue ?g' = drop n (queue g) \<and>
            (\<forall>i < n. isOpen (ws (players g ! (queue g ! i))) \<longrightarrow>
               stream (players ?g' ! (queue g ! i)) \<noteq> None) \<and>
            (\<forall>i < n. \<not> isOpen (ws (players g ! (queue g ! i))) \<longrightarrow>
               players ?g' ! (queue g ! i) = players g ! (queue g ! i)) \<and>
            (\<forall>q \<in> set (drop n (queue g)). players ?g' ! q = players g ! q) \<and>
            (n < length (queue g) \<longrightarrow> nextAvailable ?g' (clock n) = None)"
  proof (cases "queue g = []")
    case True
    then show ?thesis by (simp add: connectWaitingPlayers_def)
  next
    case False
    then have "connectWaitingPlayers u clock g = drain u clock 0 (queue g) g"
      by (simp add: connectWaitingPlayers_def)
    with drain_fifo [OF inv refl assms(2), of clock 0] show ?thesis by simp
  qed
  assume three: "queue g = [s1, s2, s3] \<and> isOpen (ws (players g ! s1)) \<and>
          w < length (pool g) \<and>
          (\<forall>k. \<forall>j < length (pool g).
             available (debug g) (clock k - livenessWindow) (pool g ! j) = (j = w))"
  then have q: "queue g = s1 # [s2, s3]" and op: "isOpen (ws (players g ! s1))"
    and w: "w < length (pool g)"
    and only: "\<forall>k. \<forall>j < length (pool g).
             available (debug g) (clock k - livenessWindow) (pool g ! j) = (j = w)" by simp_all
  from assms(2) w have ok: "u (address (pool g ! w)) (port (pool g ! w))"
    by (simp add: accepted_def)
  note one = drain_single_worker [where u = u and clock = clock, OF inv q op w ok only]
  from one(1) show "queue ?g' = [s2, s3]" .
  from one(2) show "stream (players ?g' ! s1) = Some w" .
  from one(3) show "allocated (pool ?g' ! w)" .
  from one(4) show "players ?g' ! s2 = players g ! s2" by simp
  from one(4) show "players ?g' ! s3 = players g ! s3" by simp
qed

theorem fifo_drain_witness:
  "reachable usual_check three_waiting \<and> accepted usual_check three_waiting \<and>
   queue three_waiting = [0, 1, 2] \<and> isOpen (ws (players three_waiting ! 0)) \<and>
   \<not> thrown (connectWaitingPlayers usual_check (still 0) three_waiting) \<and>
   queue (state_left (connectWaitingPlayers usual_check (still 0) three_waiting)) = [1, 2] \<and>
   stream (players (state_left (connectWaitingPlayers usual_check (still 0) three_waiting)) ! 0) =
     Some 0 \<and>
   allocated (pool (state_left (connectWaitingPlayers usual_check (still 0) three_waiting)) ! 0) \<and>
   players (state_left (connectWaitingPlayers usual_check (still 0) three_waiting)) ! 1 =
     players three_waiting ! 1 \<and>
   players (state_left (connectWaitingPlayers usual_check (still 0) three_waiting)) ! 2 =
     players three_waiting ! 2"
proof -
  let ?g' = "state_left (connectWaitingPlayers usual_check (still 0) three_waiting)"
  have acc: "accepted usual_check three_waiting"
    by (simp add: accepted_def three_waiting_facts fresh_worker_def usual_check_def)
  have only: "\<forall>k. \<forall>j < length (pool three_waiting).
      available (debug three_waiting) (still 0 k - livenessWindow) (pool three_waiting ! j) =
        (j = 0)"
    by (simp add: three_waiting_facts fresh_worker_def available_def livenessWindow_def
        still_def)
  have w: "0 < length (pool three_waiting)" by (simp add: three_waiting_facts)
  note T = fifo_drain [OF reachable_examples(3) acc, of "still 0" 0 1 2 0]
  from T have nt: "\<not> thrown (connectWaitingPlayers usual_check (still 0) three_waiting)"
    by blast
  from T three_waiting_facts(1,5) w only
  have "queue ?g' = [1, 2] \<and> stream (players ?g' ! 0) = Some 0 \<and>
   allocated (pool ?g' ! 0) \<and> players ?g' ! 1 = players three_waiting ! 1 \<and>
   players ?g' ! 2 = players three_waiting ! 2"
    by blast
  with reachable_examples(3) acc three_waiting_facts(1,5) nt show ?thesis by simp
qed

subsection \<open>C1: no double allocation\<close>

text \<open>
  C1, as stated, fails in its first half: the flag \<^verbatim>\<open>allocated\<close> does not keep a worker
  to one session. \<^verbatim>\<open>freeServer\<close> resets the flag on an \<^verbatim>\<open>error\<close> of the worker leg
  and on the \<^verbatim>\<open>disconnect\<close> of every player that was ever assigned the worker, whoever
  holds the worker by then. In the reachable state \<open>twice_assigned\<close> the players 1 and 2
  both have an open client leg and a worker-leg handle to worker 0, whose flag is true.
\<close>

theorem worker_held_twice:
  "reachable usual_check twice_assigned \<and>
   isOpen (ws (players twice_assigned ! 1)) \<and> isOpen (ws (players twice_assigned ! 2)) \<and>
   stream (players twice_assigned ! 1) = Some 0 \<and>
   stream (players twice_assigned ! 2) = Some 0 \<and>
   allocated (pool twice_assigned ! 0)"
  using reachable_examples(4) twice_assigned_facts by (simp add: isOpen_def)

text \<open>
  C1, amended: in every reachable state, a worker whose flag \<^verbatim>\<open>allocated\<close> is true is
  not returned by the availability scan; no handler gives a handle to it to a player that
  had none; and its flag is still true after every handler but the two that run
  \<^verbatim>\<open>freeServer\<close>, the close of a client leg and the error of a worker leg. Whatever the
  flag, one handler gives a handle to the same worker to at most one player.
\<close>

theorem allocated_worker_not_assigned:
  assumes "reachable u g"
  shows "(w < length (pool g) \<and> allocated (pool g ! w) \<longrightarrow>
            nextAvailable g now \<noteq> Some w \<and>
            (\<forall>q < length (players (handle u e g)).
               stream (players (handle u e g) ! q) = Some w \<longrightarrow>
               q < length (players g) \<and> stream (players g ! q) = Some w) \<and>
            ((\<forall>p. e \<noteq> ClientClose p \<and> e \<noteq> StreamerError p) \<longrightarrow>
               allocated (pool (handle u e g) ! w))) \<and>
         (\<forall>q < length (players (handle u e g)). \<forall>q' < length (players (handle u e g)).
            q \<noteq> q' \<and> stream (players (handle u e g) ! q) = Some w \<and>
            stream (players (handle u e g) ! q') = Some w \<longrightarrow>
            (q < length (players g) \<and> stream (players g ! q) = Some w) \<or>
            (q' < length (players g) \<and> stream (players g ! q') = Some w))"
proof (intro conjI impI allI)
  from assms have "queue_inv g" by (rule reachable_inv)
  then have wf: "all_wf g" by (simp add: queue_inv_def)
  {
    assume a: "w < length (pool g) \<and> allocated (pool g ! w)"
    then have w: "w < length (pool g)" "allocated (pool g ! w)" by simp_all
    show "nextAvailable g now \<noteq> Some w"
      using available_not_allocated [of g now w] w by blast
    {
      fix q
      assume "q < length (players (handle u e g))" "stream (players (handle u e g) ! q) = Some w"
      from handle_no_new_holder [OF w this]
      show "q < length (players g)" "stream (players g ! q) = Some w" by simp_all
    }
    assume "\<forall>p. e \<noteq> ClientClose p \<and> e \<noteq> StreamerError p"
    with wf w show "allocated (pool (handle u e g) ! w)" by (rule handle_keeps_allocated)
  }
  fix q q'
  assume "q < length (players (handle u e g))" "q' < length (players (handle u e g))"
    and "q \<noteq> q' \<and> stream (players (handle u e g) ! q) = Some w \<and>
            stream (players (handle u e g) ! q') = Some w"
  then show "(q < length (players g) \<and> stream (players g ! q) = Some w) \<or>
            (q' < length (players g) \<and> stream (players g ! q') = Some w)"
    using handle_one_new_holder [of q u e g w q'] by blast
qed

theorem allocated_worker_not_assigned_witness:
  "reachable usual_check one_matched \<and> allocated (pool one_matched ! 0) \<and>
   nextAvailable one_matched 0 \<noteq> Some 0 \<and>
   length (players (handle usual_check (ClientConnection (still 0)) one_matched)) = 2 \<and>
   stream (players (handle usual_check (ClientConnection (still 0)) one_matched) ! 1) \<noteq> Some 0 \<and>
   allocated (pool (handle usual_check (ClientConnection (still 0)) one_matched) ! 0)"
proof -
  have w: "0 < length (pool one_matched)" "allocated (pool one_matched ! 0)"
    and l: "length (players one_matched) = 1"
    by (simp_all add: one_matched_eq)
  have l2: "length (players (handle usual_check (ClientConnection (still 0)) one_matched)) = 2"
    by (simp add: onClientConnection_enqueued connectWaitingPlayers_simps enqueued_simps l)
  have e: "\<forall>p. ClientConnection (still 0) \<noteq> ClientClose p \<and>
      ClientConnection (still 0) \<noteq> StreamerError p"
    by simp
  note T = allocated_worker_not_assigned [OF reachable_examples(2),
      where w = 0 and now = 0 and e = "ClientConnection (still 0)"]
  from T w have A: "nextAvailable one_matched 0 \<noteq> Some 0" by blast
  from T w have B: "\<forall>q < length (players (handle usual_check (ClientConnection (still 0)) one_matched)).
               stream (players (handle usual_check (ClientConnection (still 0)) one_matched) ! q) = Some 0 \<longrightarrow>
               q < length (players one_matched) \<and> stream (players one_matched ! q) = Some 0"
    by blast
  from T w e have C: "allocated (pool (handle usual_check (ClientConnection (still 0)) one_matched) ! 0)" by blast
  from B [rule_format, of 1] l l2
  have D: "stream (players (handle usual_check (ClientConnection (still 0)) one_matched) ! 1) \<noteq> Some 0" by auto
  from A C D
  have "nextAvailable one_matched 0 \<noteq> Some 0 \<and>
   stream (players (handle usual_check (ClientConnection (still 0)) one_matched) ! 1) \<noteq> Some 0 \<and>
   allocated (pool (handle usual_check (ClientConnection (still 0)) one_matched) ! 0)" by blast
  with reachable_examples(2) w l2 show ?thesis by simp
qed

end
